theory Spec2Isabelle
  imports Complex_Main "HOL-Library.Word" "HOL-Library.Log_Nat" "HOL-Library.Sublist"
begin

section \<open>Shannon coding of text lines: the encoder\<close>

text \<open>
  The repository holds four near-identical encoders (\<^verbatim>\<open>src/mutex.cpp\<close>,
  \<^verbatim>\<open>src/multiThreading.cpp\<close>, \<^verbatim>\<open>src/server.cpp\<close> and their reworked copies under
  \<^verbatim>\<open>src/src/\<close>). They share \<^verbatim>\<open>compareFreqChar\<close>, \<^verbatim>\<open>decimalToBinary\<close> and the body of
  \<^verbatim>\<open>shannonCode\<close>; the definitions below follow \<^verbatim>\<open>src/mutex.cpp\<close> and name the
  places where a sibling file differs.
\<close>

subsection \<open>Characters\<close>

text \<open>
  A C++ \<^verbatim>\<open>char\<close> is one byte. Whether \<^verbatim>\<open>a.character > b.character\<close> compares the bytes
  as signed or as unsigned numbers is the platform's choice (signed on x86-64 Linux,
  unsigned on AArch64 Linux), so the value a \<^verbatim>\<open>char\<close> compares by takes that choice as
  its first argument. Both readings agree on ASCII.
\<close>

definition char_val :: "bool \<Rightarrow> char \<Rightarrow> int" where
  "char_val signed_char c =
     (let v = of_char c in if signed_char \<and> 128 \<le> v then v - 256 else v)"

definition NUL :: char where
  "NUL = CHR 0x00"

subsection \<open>\<^verbatim>\<open>struct CharCode\<close> and \<^verbatim>\<open>compareFreqChar\<close>\<close>

record CharCode =
  character :: char
  freq :: int
  code :: string

definition compareFreqChar :: "bool \<Rightarrow> CharCode \<Rightarrow> CharCode \<Rightarrow> bool" where
  "compareFreqChar signed_char a b =
     (if freq a \<noteq> freq b then freq b < freq a
      else char_val signed_char (character b) < char_val signed_char (character a))"

subsection \<open>IEEE 754 rounding\<close>

text \<open>
  \<^verbatim>\<open>float\<close> and \<^verbatim>\<open>double\<close> values are the rationals they denote. Every arithmetic
  operation of the source is the exact operation followed by rounding to the nearest
  value with \<open>p\<close> significant bits, ties to the even significand (\<open>p = 24\<close> for
  \<^verbatim>\<open>float\<close>, \<open>p = 53\<close> for \<^verbatim>\<open>double\<close>). The exponent range is not bounded here: the
  encoder only forms quotients of two positive \<^verbatim>\<open>int\<close>s, their reciprocals and sums of
  at most 256 such quotients, all far inside the normal range of both formats.
\<close>

definition expo :: "rat \<Rightarrow> int" where
  "expo x =
     (let (a, b) = quotient_of \<bar>x\<bar>;
          e0 = bitlen a - bitlen b
      in if 2 powi e0 \<le> \<bar>x\<bar> then e0 else e0 - 1)"

definition round_even :: "rat \<Rightarrow> int" where
  "round_even q =
     (let f = \<lfloor>q\<rfloor>; d = q - of_int f
      in if d < 1 / 2 then f
         else if 1 / 2 < d then f + 1
         else if even f then f else f + 1)"

definition fl :: "nat \<Rightarrow> rat \<Rightarrow> rat" where
  "fl p x =
     (if x = 0 then 0
      else let u = 2 powi (expo x - (int p - 1))
           in of_int (round_even (x / u)) * u)"

definition to_float :: "rat \<Rightarrow> rat" where
  "to_float = fl 24"

definition to_double :: "rat \<Rightarrow> rat" where
  "to_double = fl 53"

text \<open>
  \<^verbatim>\<open>ceil(log2(x))\<close> for a positive \<open>x\<close>. The library's \<^verbatim>\<open>log2\<close> is taken at its
  mathematical value: the least \<open>k\<close> with \<open>x \<le> 2\<^sup>k\<close>. (\<open>ceil_log2_log\<close> below relates
  it to the real logarithm.)
\<close>

definition ceil_log2 :: "rat \<Rightarrow> int" where
  "ceil_log2 x = (let e = expo x in if x = 2 powi e then e else e + 1)"

subsection \<open>\<^verbatim>\<open>decimalToBinary\<close>\<close>

text \<open>
  \<^verbatim>\<open>
  std::string decimalToBinary(float decimal, int precision) {
      std::string binary = "";
      while (decimal > 0 && precision > 0) {
          double temp = decimal * 2;
          if (temp >= 1) { binary += "1"; decimal = temp - 1; }
          else           { binary += "0"; decimal = temp; }
          --precision;
      }
      while (precision > 0) { --precision; binary += "0"; }
      return binary;
  }
  \<close>
  \<^verbatim>\<open>decimal * 2\<close> is a \<^verbatim>\<open>float\<close> product, \<^verbatim>\<open>temp - 1\<close> a \<^verbatim>\<open>double\<close> difference that the
  assignment narrows to \<^verbatim>\<open>float\<close>.
\<close>

function d2b_loop :: "string \<Rightarrow> rat \<Rightarrow> int \<Rightarrow> string \<times> rat \<times> int" where
  "d2b_loop binary decimal precision =
     (if 0 < decimal \<and> 0 < precision then
        (let temp = to_float (decimal * 2) in
         if 1 \<le> temp
         then d2b_loop (binary @ ''1'') (to_float (to_double (temp - 1))) (precision - 1)
         else d2b_loop (binary @ ''0'') (to_float temp) (precision - 1))
      else (binary, decimal, precision))"
  by pat_completeness auto
termination
  by (relation "measure (\<lambda>(binary, decimal, precision). nat precision)") auto

declare d2b_loop.simps [simp del]

definition pad_zeros :: "string \<Rightarrow> int \<Rightarrow> string" where
  "pad_zeros binary precision = binary @ replicate (nat precision) (CHR ''0'')"

definition decimalToBinary :: "rat \<Rightarrow> int \<Rightarrow> string" where
  "decimalToBinary decimal precision =
     (let (binary, decimal', precision') = d2b_loop [] decimal precision
      in pad_zeros binary precision')"

subsection \<open>\<^verbatim>\<open>shannonCode\<close>: counting, sorting, coding\<close>

text \<open>
  \<^verbatim>\<open>int lineSize = line.length();\<close> narrows a \<^verbatim>\<open>size_t\<close> to a 32-bit \<^verbatim>\<open>int\<close>. Both
  loops over the line run \<^verbatim>\<open>for (int i = 0; i < lineSize; ++i)\<close>, so they visit the
  first \<open>lineSize\<close> characters (none when the narrowed value is not positive).
\<close>

definition int_of_size :: "nat \<Rightarrow> int" where
  "int_of_size n = sint (word_of_nat n :: 32 word)"

definition lineSize :: "string \<Rightarrow> int" where
  "lineSize inp = int_of_size (length inp)"

definition scanned :: "string \<Rightarrow> string" where
  "scanned inp = take (nat (lineSize inp)) inp"

text \<open>
  \<^verbatim>\<open>std::map<char, int> charCountMap\<close>: keys kept unique and in ascending order.
  \<^verbatim>\<open>++charCountMap[c]\<close> inserts the key with count 0 when it is missing, then
  increments.
\<close>

fun map_incr :: "bool \<Rightarrow> char \<Rightarrow> (char \<times> int) list \<Rightarrow> (char \<times> int) list" where
  "map_incr sg c [] = [(c, 1)]"
| "map_incr sg c ((k, n) # m) =
     (if c = k then (k, n + 1) # m
      else if char_val sg c < char_val sg k then (c, 1) # (k, n) # m
      else (k, n) # map_incr sg c m)"

definition charCountMap :: "bool \<Rightarrow> string \<Rightarrow> (char \<times> int) list" where
  "charCountMap sg inp = fold (map_incr sg) (scanned inp) []"

text \<open>
  \<^verbatim>\<open>std::sort(charCodeVec.begin(), charCodeVec.end(), compareFreqChar)\<close>. The library's
  algorithm is not fixed by the standard; its result is, whenever no two elements are
  equivalent under the comparator (\<open>sort_by_unique\<close> below), which holds for entries
  with distinct characters. Insertion sort stands for it.
\<close>

fun insert_by :: "('a \<Rightarrow> 'a \<Rightarrow> bool) \<Rightarrow> 'a \<Rightarrow> 'a list \<Rightarrow> 'a list" where
  "insert_by lt x [] = [x]"
| "insert_by lt x (y # ys) = (if lt x y then x # y # ys else y # insert_by lt x ys)"

definition sort_by :: "('a \<Rightarrow> 'a \<Rightarrow> bool) \<Rightarrow> 'a list \<Rightarrow> 'a list" where
  "sort_by lt xs = foldr (insert_by lt) xs []"

definition entries_of :: "(char \<times> int) list \<Rightarrow> CharCode list" where
  "entries_of m = map (\<lambda>(c, n). \<lparr>character = c, freq = n, code = []\<rparr>) m"

text \<open>
  \<^verbatim>\<open>
  float probability = ((float)charCode.freq/lineSize);
  int precision = ceil(log2(1/probability));
  \<close>
\<close>

definition probability :: "int \<Rightarrow> int \<Rightarrow> rat" where
  "probability f n = to_float (to_float (of_int f) / to_float (of_int n))"

definition precision_of :: "rat \<Rightarrow> int" where
  "precision_of p = ceil_log2 (to_float (1 / p))"

text \<open>
  The coding loop over the sorted vector. It carries \<^verbatim>\<open>cumulativeProbability\<close> and
  \<^verbatim>\<open>charCodeMap\<close>, writes each entry's \<^verbatim>\<open>code\<close>, and returns the vector and the map.
\<close>

fun assign_codes ::
  "int \<Rightarrow> rat \<Rightarrow> (char \<rightharpoonup> string) \<Rightarrow> CharCode list \<Rightarrow> CharCode list \<times> (char \<rightharpoonup> string)" where
  "assign_codes n cumulativeProbability charCodeMap [] = ([], charCodeMap)"
| "assign_codes n cumulativeProbability charCodeMap (charCode # rest) =
     (let p = probability (freq charCode) n;
          precision = precision_of p;
          ShannonCode = decimalToBinary cumulativeProbability precision;
          (rest', charCodeMap') =
             assign_codes n (to_float (cumulativeProbability + p))
               (charCodeMap(character charCode \<mapsto> ShannonCode)) rest
      in (charCode\<lparr>code := ShannonCode\<rparr> # rest', charCodeMap'))"

text \<open>
  \<^verbatim>\<open>encodedLine += charCodeMap[line[i]]\<close>: \<^verbatim>\<open>operator[]\<close> yields the empty string for a
  key that is missing.
\<close>

definition code_at :: "(char \<rightharpoonup> string) \<Rightarrow> char \<Rightarrow> string" where
  "code_at charCodeMap c = (case charCodeMap c of None \<Rightarrow> [] | Some s \<Rightarrow> s)"

text \<open>The invariant of \<^verbatim>\<open>std::map\<close>: keys strictly ascending.\<close>

definition key_sorted :: "bool \<Rightarrow> (char \<times> int) list \<Rightarrow> bool" where
  "key_sorted sg m = sorted_wrt (\<lambda>a b. char_val sg a < char_val sg b) (map fst m)"

definition sorted_entries :: "bool \<Rightarrow> string \<Rightarrow> CharCode list" where
  "sorted_entries sg inp = sort_by (compareFreqChar sg) (entries_of (charCountMap sg inp))"

definition coded :: "bool \<Rightarrow> string \<Rightarrow> CharCode list \<times> (char \<rightharpoonup> string)" where
  "coded sg inp = assign_codes (lineSize inp) 0 Map.empty (sorted_entries sg inp)"

definition charCodeVec_of :: "bool \<Rightarrow> string \<Rightarrow> CharCode list" where
  "charCodeVec_of sg inp = fst (coded sg inp)"

definition charCodeMap_of :: "bool \<Rightarrow> string \<Rightarrow> (char \<rightharpoonup> string)" where
  "charCodeMap_of sg inp = snd (coded sg inp)"

definition encodedLine_of :: "bool \<Rightarrow> string \<Rightarrow> string" where
  "encodedLine_of sg inp = concat (map (code_at (charCodeMap_of sg inp)) (scanned inp))"

text \<open>
  What the thread of \<^verbatim>\<open>src/mutex.cpp\<close> prints for a line after \<^verbatim>\<open>Message:\<close>: the
  alphabet and the encoded message.
\<close>

definition shannonCode :: "bool \<Rightarrow> string \<Rightarrow> CharCode list \<times> string" where
  "shannonCode sg inp = (charCodeVec_of sg inp, encodedLine_of sg inp)"

text \<open>
  The same concatenation with a lookup that can fail: \<open>None\<close> as soon as one character
  of the line has no entry in the map.
\<close>

fun encode_checked :: "(char \<rightharpoonup> string) \<Rightarrow> string \<Rightarrow> string option" where
  "encode_checked m [] = Some []"
| "encode_checked m (c # cs) =
     (case m c of
        None \<Rightarrow> None
      | Some s \<Rightarrow> (case encode_checked m cs of None \<Rightarrow> None | Some r \<Rightarrow> Some (s @ r)))"

text \<open>No code is a prefix of the code of another entry.\<close>

definition prefix_free :: "CharCode list \<Rightarrow> bool" where
  "prefix_free al =
     (\<forall>i < length al. \<forall>j < length al. i \<noteq> j \<longrightarrow> \<not> prefix (code (al ! i)) (code (al ! j)))"

text \<open>
  A line of 16777217 bytes, the least length a \<^verbatim>\<open>float\<close> cannot hold, and the alphabet
  the encoder computes for it (\<open>big_line_alphabet\<close> below).
\<close>

definition big_line :: string where
  "big_line = replicate 16777216 (CHR ''a'') @ ''b''"

definition big_alphabet :: "CharCode list" where
  "big_alphabet =
     [\<lparr>character = CHR ''a'', freq = 16777216, code = []\<rparr>,
      \<lparr>character = CHR ''b'', freq = 1, code = ''111111111111111111111111''\<rparr>]"

text \<open>
  A line of \<open>2\<^sup>3\<^sup>1\<close> bytes, the least length an \<^verbatim>\<open>int\<close> cannot hold.
\<close>

definition long_line :: string where
  "long_line = replicate 2147483648 (CHR ''a'')"

text \<open>
  The letter a and the byte \<^verbatim>\<open>0xE9\<close>, which is the letter e with an acute accent in
  Latin-1 and a continuation byte in UTF-8.
\<close>

definition accent_line :: string where
  "accent_line = [CHR 0x61, CHR 0xE9]"

subsection \<open>Failures\<close>

text \<open>
  What ends a run of one of the programs early: an exception of the reworked files, or
  an access outside a buffer, a read past the end of the byte stream, or a negative
  byte count handed to \<^verbatim>\<open>read\<close>, \<^verbatim>\<open>write\<close> or \<^verbatim>\<open>new char[]\<close>, where C++ leaves the
  behaviour undefined or the call fails.
\<close>

datatype failure =
  Invalid_argument string
| Buffer_overflow
| Buffer_overread
| Short_read
| Bad_length

definition bindf :: "failure + 'a \<Rightarrow> ('a \<Rightarrow> failure + 'b) \<Rightarrow> failure + 'b" where
  "bindf r k = (case r of Inl e \<Rightarrow> Inl e | Inr v \<Rightarrow> k v)"

subsection \<open>\<^verbatim>\<open>decimalToBinary\<close> of the reworked files\<close>


subsection \<open>\<^verbatim>\<open>shannonCode\<close> on \<^verbatim>\<open>struct EncodedMsg\<close>\<close>

record EncodedMsg =
  line :: string
  charCodeVec :: "CharCode list"
  encodedLine :: string

text \<open>
  \<^verbatim>\<open>void shannonCode(EncodedMsg& msg)\<close> of \<^verbatim>\<open>src/server.cpp\<close>. It counts with
  \<^verbatim>\<open>for (char c : msg.line)\<close>, appends the counted entries to \<^verbatim>\<open>msg.charCodeVec\<close> with
  \<^verbatim>\<open>push_back\<close>, sorts and codes the whole vector, and appends to \<^verbatim>\<open>msg.encodedLine\<close>
  with \<^verbatim>\<open>+=\<close> in a loop bounded by \<^verbatim>\<open>lineSize\<close>.
\<close>

definition shannonCode_msg :: "bool \<Rightarrow> EncodedMsg \<Rightarrow> EncodedMsg" where
  "shannonCode_msg sg msg =
     (let counted = fold (map_incr sg) (line msg) [];
          vec = sort_by (compareFreqChar sg) (charCodeVec msg @ entries_of counted);
          (vec', charCodeMap) = assign_codes (lineSize (line msg)) 0 Map.empty vec
      in msg\<lparr>charCodeVec := vec',
              encodedLine := encodedLine msg @ concat (map (code_at charCodeMap) (scanned (line msg)))\<rparr>)"

text \<open>
  \<^verbatim>\<open>void *shannonCode(void *void_ptr)\<close> of \<^verbatim>\<open>src/multiThreading.cpp\<close>, on the
  \<^verbatim>\<open>EncodedMsg\<close> its argument points to. Both loops over the line are bounded by
  \<^verbatim>\<open>lineSize\<close>, and \<^verbatim>\<open>curr_ptr->encodedLine = ""\<close> comes before the appends.
\<close>

definition shannonCode_thread :: "bool \<Rightarrow> EncodedMsg \<Rightarrow> EncodedMsg" where
  "shannonCode_thread sg msg =
     (let vec = sort_by (compareFreqChar sg)
                  (charCodeVec msg @ entries_of (charCountMap sg (line msg)));
          (vec', charCodeMap) = assign_codes (lineSize (line msg)) 0 Map.empty vec
      in msg\<lparr>charCodeVec := vec',
              encodedLine := concat (map (code_at charCodeMap) (scanned (line msg)))\<rparr>)"

section \<open>The connection protocol\<close>

subsection \<open>C strings and 32-bit integers on the wire\<close>

definition c_string :: "char list \<Rightarrow> string" where
  "c_string bytes = takeWhile (\<lambda>c. c \<noteq> NUL) bytes"

text \<open>
  \<^verbatim>\<open>write(fd, &n, sizeof(int))\<close> and \<^verbatim>\<open>read(fd, &n, sizeof(int))\<close> move the four bytes of
  an \<^verbatim>\<open>int\<close> in the host's byte order, which is the second platform choice.
\<close>

definition int_bytes :: "bool \<Rightarrow> int \<Rightarrow> char list" where
  "int_bytes big_endian x =
     (let u = x mod 2 ^ 32;
          le = [char_of u, char_of (u div 256), char_of (u div 65536), char_of (u div 16777216)]
      in if big_endian then rev le else le)"

definition bytes_int :: "bool \<Rightarrow> char list \<Rightarrow> int" where
  "bytes_int big_endian bytes =
     (case (if big_endian then rev bytes else bytes) of
        [b0, b1, b2, b3] \<Rightarrow>
          (let u = of_char b0 + 256 * of_char b1 + 65536 * of_char b2 + 16777216 * of_char b3
           in if 2 ^ 31 \<le> u then u - 2 ^ 32 else u)
      | _ \<Rightarrow> 0)"

subsection \<open>The client's request\<close>

text \<open>
  \<^verbatim>\<open>src/client.cpp\<close>:
  \<^verbatim>\<open>
  char message[32];
  strcpy(message, curr_ptr->line.c_str());
  n = write(sockfd, &message, sizeof(message));
  \<close>
  \<open>stack\<close> is what the 32 bytes of \<^verbatim>\<open>message\<close> hold before the copy. \<^verbatim>\<open>strcpy\<close> copies
  up to and including the first NUL; when that is more than 32 bytes it writes past the
  array.
\<close>

definition request_of :: "char list \<Rightarrow> string \<Rightarrow> failure + char list" where
  "request_of stack inp =
     (let s = c_string inp
      in if 32 < length s + 1 then Inl Buffer_overflow
         else Inr (s @ [NUL] @ drop (length s + 1) (take 32 stack)))"

text \<open>
  \<^verbatim>\<open>src/src/network/client.cpp\<close>:
  \<^verbatim>\<open>
  void sendMessage(const std::string& message) {
      char buffer[ClientConfig::BUFFER_SIZE];
      strncpy(buffer, message.c_str(), sizeof(buffer) - 1);
      buffer[sizeof(buffer) - 1] = '\0';
      if (write(sockfd, buffer, sizeof(buffer)) < 0) ...
  \<close>
  \<^verbatim>\<open>strncpy\<close> copies at most \<open>n\<close> characters of the C string and fills what is left of
  the \<open>n\<close> bytes with NUL.
\<close>

definition strncpy_bytes :: "nat \<Rightarrow> string \<Rightarrow> char list" where
  "strncpy_bytes n src = (let s = take n (c_string src) in s @ replicate (n - length s) NUL)"

definition sendMessage :: "string \<Rightarrow> char list" where
  "sendMessage message = strncpy_bytes 31 message @ [NUL]"

subsection \<open>The server's handler\<close>

text \<open>
  \<^verbatim>\<open>write(fd, buf, n)\<close> with an \<^verbatim>\<open>int n\<close>: the first \<open>n\<close> bytes of the buffer. A negative
  \<open>n\<close> becomes a huge \<^verbatim>\<open>size_t\<close>, and an \<open>n\<close> beyond the buffer reads past it.
\<close>

definition write_counted :: "int \<Rightarrow> char list \<Rightarrow> failure + char list" where
  "write_counted n buffer =
     (if n < 0 \<or> int (length buffer) < n then Inl Bad_length else Inr (take (nat n) buffer))"

definition entry_bytes :: "bool \<Rightarrow> CharCode \<Rightarrow> failure + char list" where
  "entry_bytes be charCode =
     (let codeLength = int_of_size (length (code charCode))
      in bindf (write_counted codeLength (code charCode @ [NUL])) (\<lambda>sent.
           Inr ([character charCode] @ int_bytes be (freq charCode)
                  @ int_bytes be codeLength @ sent)))"

fun entries_bytes :: "bool \<Rightarrow> CharCode list \<Rightarrow> failure + char list" where
  "entries_bytes be [] = Inr []"
| "entries_bytes be (charCode # rest) =
     bindf (entry_bytes be charCode) (\<lambda>b. bindf (entries_bytes be rest) (\<lambda>bs. Inr (b @ bs)))"

text \<open>
  The child process of \<^verbatim>\<open>src/server.cpp\<close> on the 32 bytes it has read:
  \<^verbatim>\<open>msg.line = message\<close> takes the C string in the array (and reads past it when the
  array holds no NUL), then come \<^verbatim>\<open>shannonCode(msg)\<close> and the writes, in the order of
  the source. The encoded line goes through \<^verbatim>\<open>strcpy\<close> into an array of
  \<^verbatim>\<open>encodedSize + 1\<close> bytes first.
\<close>

definition handle_request :: "bool \<Rightarrow> bool \<Rightarrow> char list \<Rightarrow> failure + char list" where
  "handle_request sg be message =
     (if NUL \<notin> set message then Inl Buffer_overread
      else
        let msg = shannonCode_msg sg \<lparr>line = c_string message, charCodeVec = [], encodedLine = []\<rparr>;
            charCodeVecSize = int_of_size (length (charCodeVec msg));
            encodedSize = int_of_size (length (encodedLine msg))
        in bindf (entries_bytes be (charCodeVec msg)) (\<lambda>entries.
           bindf (write_counted encodedSize (c_string (encodedLine msg) @ [NUL])) (\<lambda>encoded.
             Inr (int_bytes be charCodeVecSize @ entries @ int_bytes be encodedSize @ encoded))))"

subsection \<open>The client's parser\<close>

text \<open>
  \<^verbatim>\<open>read(fd, buf, n)\<close> takes the next \<open>n\<close> bytes of the stream. The source only tests
  \<^verbatim>\<open>n < 0\<close>; when the stream ends early it goes on with whatever the buffer held, which
  for the \<^verbatim>\<open>int\<close>s is indeterminate, so the parser stops there with \<open>Short_read\<close>.
\<close>

definition read_bytes :: "nat \<Rightarrow> char list \<Rightarrow> failure + (char list \<times> char list)" where
  "read_bytes n s = (if length s < n then Inl Short_read else Inr (take n s, drop n s))"

definition read_char :: "char list \<Rightarrow> failure + (char \<times> char list)" where
  "read_char s = (case s of [] \<Rightarrow> Inl Short_read | c # rest \<Rightarrow> Inr (c, rest))"

definition read_int :: "bool \<Rightarrow> char list \<Rightarrow> failure + (int \<times> char list)" where
  "read_int be s = bindf (read_bytes 4 s) (\<lambda>(b, rest). Inr (bytes_int be b, rest))"

text \<open>
  \<^verbatim>\<open>
  char* codeBuffer = new char[codeLength + 1];
  bzero(codeBuffer, codeLength + 1);
  n = read(sockfd, codeBuffer, codeLength);
  charCode.code = std::string(codeBuffer);
  \<close>
\<close>

definition read_counted :: "int \<Rightarrow> char list \<Rightarrow> failure + (string \<times> char list)" where
  "read_counted n s =
     (if n < 0 then Inl Bad_length
      else bindf (read_bytes (nat n) s) (\<lambda>(b, rest). Inr (c_string (b @ [NUL]), rest)))"

fun read_entries :: "bool \<Rightarrow> nat \<Rightarrow> char list \<Rightarrow> failure + (CharCode list \<times> char list)" where
  "read_entries be 0 s = Inr ([], s)"
| "read_entries be (Suc k) s =
     bindf (read_char s) (\<lambda>(c, s1).
     bindf (read_int be s1) (\<lambda>(f, s2).
     bindf (read_int be s2) (\<lambda>(codeLength, s3).
     bindf (read_counted codeLength s3) (\<lambda>(cd, s4).
     bindf (read_entries be k s4) (\<lambda>(es, s5).
       Inr (\<lparr>character = c, freq = f, code = cd\<rparr> # es, s5))))))"

definition receive :: "bool \<Rightarrow> char list \<Rightarrow> failure + (CharCode list \<times> string)" where
  "receive be s =
     bindf (read_int be s) (\<lambda>(charCodeVecSize, s1).
     bindf (read_entries be (nat charCodeVecSize) s1) (\<lambda>(vec, s2).
     bindf (read_int be s2) (\<lambda>(encodedSize, s3).
     bindf (read_counted encodedSize s3) (\<lambda>(encoded, s4).
       Inr (vec, encoded)))))"

text \<open>
  One client thread of \<^verbatim>\<open>src/client.cpp\<close> against the handler: what it stores in
  \<^verbatim>\<open>curr_ptr->charCodeVec\<close> and \<^verbatim>\<open>curr_ptr->encodedLine\<close>.
\<close>

definition communicateWithServer ::
  "bool \<Rightarrow> bool \<Rightarrow> char list \<Rightarrow> string \<Rightarrow> failure + (CharCode list \<times> string)" where
  "communicateWithServer sg be stack inp =
     bindf (request_of stack inp) (\<lambda>message.
     bindf (handle_request sg be message) (receive be))"

text \<open>
  An entry the wire format carries unchanged: frequency and code length fit an \<^verbatim>\<open>int\<close>,
  and the code holds no NUL.
\<close>

definition wire_ok :: "CharCode \<Rightarrow> bool" where
  "wire_ok e \<longleftrightarrow>
     - (2 ^ 31) \<le> freq e \<and> freq e < 2 ^ 31 \<and> length (code e) < 2 ^ 31 \<and> NUL \<notin> set (code e)"

section \<open>The ordering coordinator of \<^verbatim>\<open>src/mutex.cpp\<close>\<close>

text \<open>
  \<^verbatim>\<open>main\<close> spawns one thread per input line from a single \<^verbatim>\<open>SharedData\<close> record and
  the threads print in the order of their ids. The program is a transition system:
  one step is one statement of one thread, and a run is a schedule, the list of the
  threads that step. \<^verbatim>\<open>pthread_mutex_lock\<close> is a step that is possible only while the
  mutex is free; \<^verbatim>\<open>pthread_cond_wait\<close> releases \<^verbatim>\<open>mutex2\<close> and sleeps in one step, and
  the woken thread locks \<^verbatim>\<open>mutex2\<close> again before it returns to the loop test. Thread
  creation is taken to succeed.
\<close>

datatype main_pc =
  M_test       \<comment> \<open>\<^verbatim>\<open>i < threadSize\<close>\<close>
| M_lock1      \<comment> \<open>\<^verbatim>\<open>pthread_mutex_lock(&mutex1)\<close>\<close>
| M_set        \<comment> \<open>\<^verbatim>\<open>sharedData.line = inputLines[i]; sharedData.id = i;\<close>\<close>
| M_create     \<comment> \<open>\<^verbatim>\<open>pthread_create\<close>, \<^verbatim>\<open>push_back\<close>, \<^verbatim>\<open>i++\<close>\<close>
| M_join       \<comment> \<open>the loop of \<^verbatim>\<open>pthread_join\<close>\<close>

datatype thread_pc =
  T_idle           \<comment> \<open>not created yet\<close>
| T_copy           \<comment> \<open>\<^verbatim>\<open>line = data->line; localID = data->id;\<close>\<close>
| T_unlock1        \<comment> \<open>\<^verbatim>\<open>pthread_mutex_unlock(data->mutex1)\<close>\<close>
| T_compute        \<comment> \<open>counting, sorting, coding: lines 87 to 146\<close>
| T_lock2          \<comment> \<open>\<^verbatim>\<open>pthread_mutex_lock(data->mutex2)\<close>\<close>
| T_test           \<comment> \<open>\<^verbatim>\<open>while (localID != *(data->counter))\<close>\<close>
| T_asleep         \<comment> \<open>inside \<^verbatim>\<open>pthread_cond_wait\<close>, \<^verbatim>\<open>mutex2\<close> released\<close>
| T_reacquire      \<comment> \<open>woken inside \<^verbatim>\<open>pthread_cond_wait\<close>, locking \<^verbatim>\<open>mutex2\<close> again\<close>
| T_unlock2        \<comment> \<open>\<^verbatim>\<open>pthread_mutex_unlock(data->mutex2)\<close> after the loop\<close>
| T_print          \<comment> \<open>the \<^verbatim>\<open>std::cout\<close> statements\<close>
| T_lock2_adv      \<comment> \<open>\<^verbatim>\<open>pthread_mutex_lock(data->mutex2)\<close> before the increment\<close>
| T_incr           \<comment> \<open>\<^verbatim>\<open>(*(data->counter))++\<close>\<close>
| T_broadcast      \<comment> \<open>\<^verbatim>\<open>pthread_cond_broadcast(data->condition)\<close>\<close>
| T_unlock2_adv    \<comment> \<open>\<^verbatim>\<open>pthread_mutex_unlock(data->mutex2)\<close> at the end\<close>
| T_done           \<comment> \<open>\<^verbatim>\<open>return nullptr\<close>\<close>

record worker =
  wpc :: thread_pc
  localID :: int
  localLine :: string

record coordinator =
  inputLines :: "string list"
  main_at :: main_pc
  i_main :: nat
  mutex1 :: bool
  mutex2 :: bool
  shared_line :: string
  shared_id :: int
  counter :: int
  threads :: "nat \<Rightarrow> worker"
  console :: "(int \<times> string) list"

definition initial :: "string list \<Rightarrow> coordinator" where
  "initial inputs =
     \<lparr>inputLines = inputs, main_at = M_test, i_main = 0, mutex1 = False, mutex2 = False,
      shared_line = [], shared_id = 0, counter = 0,
      threads = (\<lambda>k. \<lparr>wpc = T_idle, localID = 0, localLine = []\<rparr>), console = []\<rparr>"

definition main_step :: "coordinator \<Rightarrow> coordinator option" where
  "main_step s =
     (case main_at s of
        M_test \<Rightarrow>
          Some (s\<lparr>main_at := (if i_main s < length (inputLines s) then M_lock1 else M_join)\<rparr>)
      | M_lock1 \<Rightarrow>
          if mutex1 s then None else Some (s\<lparr>mutex1 := True, main_at := M_set\<rparr>)
      | M_set \<Rightarrow>
          Some (s\<lparr>shared_line := inputLines s ! i_main s, shared_id := int (i_main s),
                  main_at := M_create\<rparr>)
      | M_create \<Rightarrow>
          Some (s\<lparr>threads := (threads s)(i_main s := (threads s (i_main s))\<lparr>wpc := T_copy\<rparr>),
                  i_main := i_main s + 1, main_at := M_test\<rparr>)
      | M_join \<Rightarrow> None)"

definition goto_pc :: "nat \<Rightarrow> thread_pc \<Rightarrow> coordinator \<Rightarrow> coordinator" where
  "goto_pc k p s = s\<lparr>threads := (threads s)(k := (threads s k)\<lparr>wpc := p\<rparr>)\<rparr>"

definition wake_all :: "coordinator \<Rightarrow> coordinator" where
  "wake_all s =
     s\<lparr>threads := (\<lambda>j. if wpc (threads s j) = T_asleep
                          then (threads s j)\<lparr>wpc := T_reacquire\<rparr> else threads s j)\<rparr>"

text \<open>
  \<open>spurious\<close> says whether a sleeping thread may wake without a broadcast, which POSIX
  allows; with \<open>spurious = False\<close> only \<^verbatim>\<open>pthread_cond_broadcast\<close> wakes it.
\<close>

definition thread_step :: "bool \<Rightarrow> nat \<Rightarrow> coordinator \<Rightarrow> coordinator option" where
  "thread_step spurious k s =
     (let w = threads s k in
      case wpc w of
        T_idle \<Rightarrow> None
      | T_copy \<Rightarrow>
          Some (s\<lparr>threads := (threads s)(k :=
                  w\<lparr>wpc := T_unlock1, localID := shared_id s, localLine := shared_line s\<rparr>)\<rparr>)
      | T_unlock1 \<Rightarrow> Some (goto_pc k T_compute (s\<lparr>mutex1 := False\<rparr>))
      | T_compute \<Rightarrow> Some (goto_pc k T_lock2 s)
      | T_lock2 \<Rightarrow> if mutex2 s then None else Some (goto_pc k T_test (s\<lparr>mutex2 := True\<rparr>))
      | T_test \<Rightarrow>
          if localID w \<noteq> counter s then Some (goto_pc k T_asleep (s\<lparr>mutex2 := False\<rparr>))
          else Some (goto_pc k T_unlock2 s)
      | T_asleep \<Rightarrow> if spurious then Some (goto_pc k T_reacquire s) else None
      | T_reacquire \<Rightarrow> if mutex2 s then None else Some (goto_pc k T_test (s\<lparr>mutex2 := True\<rparr>))
      | T_unlock2 \<Rightarrow> Some (goto_pc k T_print (s\<lparr>mutex2 := False\<rparr>))
      | T_print \<Rightarrow>
          Some (goto_pc k T_lock2_adv (s\<lparr>console := console s @ [(localID w, localLine w)]\<rparr>))
      | T_lock2_adv \<Rightarrow> if mutex2 s then None else Some (goto_pc k T_incr (s\<lparr>mutex2 := True\<rparr>))
      | T_incr \<Rightarrow> Some (goto_pc k T_broadcast (s\<lparr>counter := counter s + 1\<rparr>))
      | T_broadcast \<Rightarrow> Some (goto_pc k T_unlock2_adv (wake_all s))
      | T_unlock2_adv \<Rightarrow> Some (goto_pc k T_done (s\<lparr>mutex2 := False\<rparr>))
      | T_done \<Rightarrow> None)"

datatype actor = Main_thread | Thread nat

definition step :: "bool \<Rightarrow> actor \<Rightarrow> coordinator \<Rightarrow> coordinator option" where
  "step spurious a s = (case a of Main_thread \<Rightarrow> main_step s | Thread k \<Rightarrow> thread_step spurious k s)"

fun run :: "bool \<Rightarrow> actor list \<Rightarrow> coordinator \<Rightarrow> coordinator option" where
  "run spurious [] s = Some s"
| "run spurious (a # schedule) s =
     (case step spurious a s of None \<Rightarrow> None | Some s' \<Rightarrow> run spurious schedule s')"

text \<open>
  The run is over when \<^verbatim>\<open>main\<close> is in its joins and every thread has returned: the
  joins then return and \<^verbatim>\<open>main\<close> ends.
\<close>

definition finished :: "coordinator \<Rightarrow> bool" where
  "finished s \<longleftrightarrow>
     main_at s = M_join \<and>
     list_all (\<lambda>k. wpc (threads s k) = T_done) [0..<length (inputLines s)]"

text \<open>What the console shows when each line is printed in the order of the input.\<close>

definition in_input_order :: "string list \<Rightarrow> (int \<times> string) list" where
  "in_input_order inputs = map (\<lambda>k. (int k, inputs ! k)) [0..<length inputs]"

text \<open>The invariant of the reachable states.\<close>

definition holds2 :: "thread_pc \<Rightarrow> bool" where
  "holds2 p \<longleftrightarrow> p \<in> {T_test, T_unlock2, T_incr, T_broadcast, T_unlock2_adv}"

definition in_turn :: "thread_pc \<Rightarrow> bool" where
  "in_turn p \<longleftrightarrow> p \<in> {T_unlock2, T_print, T_lock2_adv, T_incr}"

definition past_turn :: "thread_pc \<Rightarrow> bool" where
  "past_turn p \<longleftrightarrow> p \<in> {T_broadcast, T_unlock2_adv, T_done}"

definition printed :: "thread_pc \<Rightarrow> bool" where
  "printed p \<longleftrightarrow> p \<in> {T_lock2_adv, T_incr}"

definition inv_main :: "coordinator \<Rightarrow> bool" where
  "inv_main s \<longleftrightarrow>
     i_main s \<le> length (inputLines s) \<and>
     (main_at s \<in> {M_lock1, M_set, M_create} \<longrightarrow> i_main s < length (inputLines s)) \<and>
     (main_at s = M_join \<longrightarrow> i_main s = length (inputLines s)) \<and>
     (main_at s \<in> {M_set, M_create} \<longrightarrow> mutex1 s) \<and>
     (main_at s = M_create \<longrightarrow>
        shared_id s = int (i_main s) \<and> shared_line s = inputLines s ! i_main s) \<and>
     (mutex1 s \<longrightarrow> main_at s \<in> {M_set, M_create} \<or>
        (0 < i_main s \<and> wpc (threads s (i_main s - 1)) \<in> {T_copy, T_unlock1}))"

definition inv_handoff :: "coordinator \<Rightarrow> bool" where
  "inv_handoff s \<longleftrightarrow>
     (\<forall>k. wpc (threads s k) = T_idle \<longleftrightarrow> i_main s \<le> k) \<and>
     (\<forall>k. wpc (threads s k) \<notin> {T_idle, T_copy} \<longrightarrow>
        localID (threads s k) = int k \<and> localLine (threads s k) = inputLines s ! k) \<and>
     (\<forall>k. wpc (threads s k) \<in> {T_copy, T_unlock1} \<longrightarrow>
        Suc k = i_main s \<and> mutex1 s \<and> main_at s \<in> {M_test, M_lock1, M_join}) \<and>
     (\<forall>k. wpc (threads s k) = T_copy \<longrightarrow>
        shared_id s = int k \<and> shared_line s = inputLines s ! k)"

definition inv_turn :: "coordinator \<Rightarrow> bool" where
  "inv_turn s \<longleftrightarrow>
     0 \<le> counter s \<and>
     (\<forall>k. past_turn (wpc (threads s k)) \<longleftrightarrow> int k < counter s) \<and>
     (\<forall>k. in_turn (wpc (threads s k)) \<longrightarrow> int k = counter s) \<and>
     console s =
       map (\<lambda>k. (int k, inputLines s ! k)) [0..<nat (counter s)] @
       (if printed (wpc (threads s (nat (counter s))))
        then [(counter s, inputLines s ! nat (counter s))] else [])"

definition inv_mutex2 :: "coordinator \<Rightarrow> bool" where
  "inv_mutex2 s \<longleftrightarrow>
     (mutex2 s \<longleftrightarrow> (\<exists>k. holds2 (wpc (threads s k)))) \<and>
     (\<forall>j k. holds2 (wpc (threads s j)) \<and> holds2 (wpc (threads s k)) \<longrightarrow> j = k) \<and>
     (\<forall>k. wpc (threads s k) = T_asleep \<longrightarrow>
        int k \<noteq> counter s \<or> (\<exists>j. wpc (threads s j) = T_broadcast))"

definition inv :: "coordinator \<Rightarrow> bool" where
  "inv s \<longleftrightarrow> inv_main s \<and> inv_handoff s \<and> inv_turn s \<and> inv_mutex2 s"

text \<open>The places of a thread before it has released \<^verbatim>\<open>mutex1\<close>.\<close>

definition early :: "thread_pc \<Rightarrow> bool" where
  "early p \<longleftrightarrow> p \<in> {T_idle, T_copy, T_unlock1}"

text \<open>
  Two lines and a schedule in which the thread of the second line has computed its code
  and sleeps in \<^verbatim>\<open>pthread_cond_wait\<close> before the thread of the first line starts to compute.
\<close>

definition example_lines :: "string list" where
  "example_lines = [''aab'', ''b'']"

definition example_first :: "actor list" where
  "example_first =
     [Main_thread, Main_thread, Main_thread, Main_thread, Thread 0, Thread 0,
      Main_thread, Main_thread, Main_thread, Main_thread, Main_thread,
      Thread 1, Thread 1, Thread 1, Thread 1, Thread 1]"

definition example_rest :: "actor list" where
  "example_rest =
     [Thread 0, Thread 0, Thread 0, Thread 0, Thread 0, Thread 0, Thread 0, Thread 0, Thread 0,
      Thread 1, Thread 1, Thread 1, Thread 1, Thread 1, Thread 1, Thread 1, Thread 1]"

text \<open>
  A bound on the steps that are left, for runs without spurious wake-ups: the place of
  \<^verbatim>\<open>main\<close> in its loop, and for each thread its place and, before its turn, the
  broadcasts that can still wake it.
\<close>

fun pc_rank :: "thread_pc \<Rightarrow> nat" where
  "pc_rank T_idle = 16"
| "pc_rank T_copy = 15"
| "pc_rank T_unlock1 = 14"
| "pc_rank T_compute = 13"
| "pc_rank T_lock2 = 12"
| "pc_rank T_reacquire = 11"
| "pc_rank T_test = 10"
| "pc_rank T_asleep = 9"
| "pc_rank T_unlock2 = 6"
| "pc_rank T_print = 5"
| "pc_rank T_lock2_adv = 4"
| "pc_rank T_incr = 3"
| "pc_rank T_broadcast = 2"
| "pc_rank T_unlock2_adv = 1"
| "pc_rank T_done = 0"

definition before_turn :: "thread_pc \<Rightarrow> bool" where
  "before_turn p \<longleftrightarrow> \<not> in_turn p \<and> \<not> past_turn p"

definition broadcasting :: "coordinator \<Rightarrow> bool" where
  "broadcasting s \<longleftrightarrow> (\<exists>j. wpc (threads s j) = T_broadcast)"

definition wakes_left :: "nat \<Rightarrow> coordinator \<Rightarrow> nat" where
  "wakes_left k s = nat (int k - counter s) + (if broadcasting s then 1 else 0)"

definition thread_rank :: "nat \<Rightarrow> coordinator \<Rightarrow> nat" where
  "thread_rank k s =
     pc_rank (wpc (threads s k)) +
     (if before_turn (wpc (threads s k)) then 3 * wakes_left k s else 0)"

definition main_rank :: "coordinator \<Rightarrow> nat" where
  "main_rank s =
     (case main_at s of
        M_test \<Rightarrow> 4 * (length (inputLines s) - i_main s) + 1
      | M_lock1 \<Rightarrow> 4 * (length (inputLines s) - i_main s)
      | M_set \<Rightarrow> 4 * (length (inputLines s) - i_main s) - 1
      | M_create \<Rightarrow> 4 * (length (inputLines s) - i_main s) - 2
      | M_join \<Rightarrow> 0)"

definition steps_left :: "coordinator \<Rightarrow> nat" where
  "steps_left s = main_rank s + (\<Sum>k<length (inputLines s). thread_rank k s)"

section \<open>Properties\<close>

subsection \<open>Rounding\<close>

lemma powi_nat: "0 \<le> k \<Longrightarrow> (2::rat) powi k = 2 ^ nat k"
  by (simp add: power_int_def)

lemma powi_add2: "(2::rat) powi (m + n) = 2 powi m * 2 powi n"
  by (simp add: power_int_add)

lemma powi_diff2: "(2::rat) powi (m - n) = 2 powi m / 2 powi n"
  by (simp add: power_int_diff)

lemma powi_pos2 [simp]: "(0::rat) < 2 powi k"
  by simp

lemma bitlen_rat_bounds:
  assumes "0 < a"
  shows "(2::rat) powi (bitlen a - 1) \<le> of_int a" "of_int a < (2::rat) powi (bitlen a)"
proof -
  have b: "2 ^ nat (bitlen a - 1) \<le> a" "a < 2 ^ nat (bitlen a)"
    using bitlen_bounds[OF assms] by auto
  have p: "0 < bitlen a" using assms b(2) by (cases "bitlen a \<le> 0") auto
  have "(2::rat) powi (bitlen a - 1) = of_int (2 ^ nat (bitlen a - 1))"
    using p by (simp add: powi_nat)
  also have "\<dots> \<le> of_int a" using b(1) by (simp only: of_int_le_iff)
  finally show "(2::rat) powi (bitlen a - 1) \<le> of_int a" .
  have "of_int a < (of_int (2 ^ nat (bitlen a)) :: rat)" using b(2) by (simp only: of_int_less_iff)
  also have "\<dots> = 2 powi (bitlen a)" using p by (simp add: powi_nat)
  finally show "of_int a < (2::rat) powi (bitlen a)" .
qed

lemma expo_bounds:
  assumes "x \<noteq> 0"
  shows "2 powi (expo x) \<le> \<bar>x\<bar> \<and> \<bar>x\<bar> < 2 powi (expo x + 1)"
proof -
  obtain a b where q: "quotient_of \<bar>x\<bar> = (a, b)" by (cases "quotient_of \<bar>x\<bar>")
  have bpos: "0 < b" using q by (rule quotient_of_denom_pos)
  have xab: "\<bar>x\<bar> = of_int a / of_int b" using q by (rule quotient_of_div)
  have apos: "0 < a"
  proof -
    have "0 < \<bar>x\<bar>" using assms by simp
    then have "0 < (of_int a :: rat) / of_int b" using xab by simp
    then show ?thesis using bpos by (simp add: zero_less_divide_iff)
  qed
  define e0 where "e0 = bitlen a - bitlen b"
  have up: "\<bar>x\<bar> < 2 powi (e0 + 1)"
  proof -
    have "of_int a < (2::rat) powi (bitlen a)" using bitlen_rat_bounds[OF apos] by simp
    moreover have "(2::rat) powi (bitlen b - 1) \<le> of_int b" using bitlen_rat_bounds[OF bpos] by simp
    moreover have "(0::rat) < 2 powi (bitlen b - 1)" by simp
    ultimately have "of_int a / of_int b < (2::rat) powi (bitlen a) / 2 powi (bitlen b - 1)"
      using bpos apos by (intro frac_less) auto
    also have "\<dots> = 2 powi (e0 + 1)"
    proof -
      have "e0 + 1 = bitlen a - (bitlen b - 1)" by (simp add: e0_def)
      then show ?thesis by (simp only: powi_diff2)
    qed
    finally show ?thesis using xab by simp
  qed
  have lo: "2 powi (e0 - 1) \<le> \<bar>x\<bar>"
  proof -
    have "(2::rat) powi (bitlen a - 1) \<le> of_int a" using bitlen_rat_bounds[OF apos] by simp
    moreover have "of_int b < (2::rat) powi (bitlen b)" using bitlen_rat_bounds[OF bpos] by simp
    ultimately have "(2::rat) powi (bitlen a - 1) / 2 powi (bitlen b) \<le> of_int a / of_int b"
      using bpos apos by (intro frac_le) auto
    moreover have "(2::rat) powi (bitlen a - 1) / 2 powi (bitlen b) = 2 powi (e0 - 1)"
    proof -
      have "e0 - 1 = (bitlen a - 1) - bitlen b" by (simp add: e0_def)
      then show ?thesis by (simp only: powi_diff2)
    qed
    ultimately show ?thesis using xab by simp
  qed
  have ex: "expo x = (if 2 powi e0 \<le> \<bar>x\<bar> then e0 else e0 - 1)"
    by (simp add: expo_def q e0_def Let_def)
  show ?thesis
  proof (cases "2 powi e0 \<le> \<bar>x\<bar>")
    case True
    then show ?thesis using up ex by simp
  next
    case False
    then show ?thesis using lo ex by simp
  qed
qed

lemma powi_le_iff2 [simp]: "(2::rat) powi m \<le> 2 powi n \<longleftrightarrow> m \<le> n"
proof
  assume "(2::rat) powi m \<le> 2 powi n"
  then show "m \<le> n"
    using power_int_strict_increasing[of n m "2::rat"] by (cases "m \<le> n") auto
next
  assume "m \<le> n"
  then show "(2::rat) powi m \<le> 2 powi n" by (intro power_int_increasing) auto
qed

lemma powi_less_iff2 [simp]: "(2::rat) powi m < 2 powi n \<longleftrightarrow> m < n"
  unfolding not_le[symmetric] by simp

lemma expo_unique:
  assumes "2 powi e \<le> \<bar>x\<bar>" "\<bar>x\<bar> < 2 powi (e + 1)"
  shows "expo x = e"
proof -
  have "0 < \<bar>x\<bar>" using assms(1) powi_pos2[of e] by linarith
  then have nz: "x \<noteq> 0" by auto
  note b = expo_bounds[OF nz]
  have "(2::rat) powi (expo x) < 2 powi (e + 1)" using b assms by linarith
  moreover have "(2::rat) powi e < 2 powi (expo x + 1)" using b assms by linarith
  ultimately show ?thesis by simp
qed

lemma expo_mono:
  assumes "0 < x" "x \<le> y"
  shows "expo x \<le> expo y"
proof -
  have "2 powi (expo x) \<le> \<bar>x\<bar>" using expo_bounds[of x] assms by auto
  moreover have "\<bar>y\<bar> < 2 powi (expo y + 1)" using expo_bounds[of y] assms by auto
  ultimately have "(2::rat) powi (expo x) < 2 powi (expo y + 1)" using assms by linarith
  then show ?thesis by simp
qed

lemma expo_powi [simp]: "expo (2 powi k) = k"
  by (rule expo_unique) simp_all

lemma round_even_of_int [simp]: "round_even (of_int k) = k"
  by (simp add: round_even_def)

lemma round_even_cases: "round_even q = \<lfloor>q\<rfloor> \<or> round_even q = \<lfloor>q\<rfloor> + 1"
  by (simp add: round_even_def Let_def)

lemma round_even_mono:
  assumes "q \<le> r"
  shows "round_even q \<le> round_even r"
proof (cases "\<lfloor>q\<rfloor> = \<lfloor>r\<rfloor>")
  case True
  then have "q - of_int \<lfloor>q\<rfloor> \<le> r - of_int \<lfloor>r\<rfloor>" using assms by simp
  then show ?thesis using True by (auto simp: round_even_def Let_def)
next
  case False
  then have "\<lfloor>q\<rfloor> < \<lfloor>r\<rfloor>" using floor_mono[OF assms] by linarith
  then show ?thesis using round_even_cases[of q] round_even_cases[of r] by linarith
qed

lemma round_even_ge: "of_int k \<le> q \<Longrightarrow> k \<le> round_even q"
  using round_even_mono[of "of_int k" q] by simp

lemma round_even_le: "q \<le> of_int k \<Longrightarrow> round_even q \<le> k"
  using round_even_mono[of q "of_int k"] by simp

lemma fl_scaled:
  assumes "0 < x"
  shows "2 powi m \<le> x / 2 powi (expo x - m)"
    and "x / 2 powi (expo x - m) < 2 powi (m + 1)"
proof -
  have b: "2 powi (expo x) \<le> x" "x < 2 powi (expo x + 1)"
    using expo_bounds[of x] assms by auto
  have "2 powi m * 2 powi (expo x - m) = (2::rat) powi (m + (expo x - m))"
    by (simp only: powi_add2)
  then have "2 powi m * 2 powi (expo x - m) = (2::rat) powi (expo x)"
    by simp
  then show "2 powi m \<le> x / 2 powi (expo x - m)"
    using b(1) by (simp add: pos_le_divide_eq)
  have "2 powi (m + 1) * 2 powi (expo x - m) = (2::rat) powi ((m + 1) + (expo x - m))"
    by (simp only: powi_add2)
  moreover have "(m + 1) + (expo x - m) = expo x + 1" by simp
  ultimately have "2 powi (m + 1) * 2 powi (expo x - m) = (2::rat) powi (expo x + 1)"
    by (simp only:)
  then show "x / 2 powi (expo x - m) < 2 powi (m + 1)"
    using b(2) by (simp add: pos_divide_less_eq)
qed

lemma powi_int_const: "0 \<le> m \<Longrightarrow> (2::rat) powi m = of_int (2 ^ nat m)"
  by (simp add: power_int_nonneg_exp)

lemma fl_bounds:
  assumes "0 < x" "1 \<le> p"
  shows "2 powi (expo x) \<le> fl p x" and "fl p x \<le> 2 powi (expo x + 1)"
proof -
  define m where "m = int p - 1"
  define u :: rat where "u = 2 powi (expo x - m)"
  have m0: "0 \<le> m" using assms(2) by (simp add: m_def)
  have upos: "0 < u" by (simp add: u_def)
  have f: "fl p x = of_int (round_even (x / u)) * u"
    using assms by (simp add: fl_def u_def m_def Let_def)
  have lo: "of_int (2 ^ nat m) \<le> x / u"
    using fl_scaled(1)[OF assms(1), of m] powi_int_const[OF m0] by (simp only: u_def)
  have hi: "x / u \<le> of_int (2 ^ nat (m + 1))"
    using fl_scaled(2)[OF assms(1), of m] powi_int_const[of "m + 1"] m0 by (simp only: u_def; simp)
  have "(2::rat) powi (expo x) = 2 powi (m + (expo x - m))" by simp
  also have "\<dots> = 2 powi m * u"
    by (simp only: u_def powi_add2)
  also have "\<dots> = of_int (2 ^ nat m) * u" by (simp only: powi_int_const[OF m0])
  also have "\<dots> \<le> of_int (round_even (x / u)) * u"
    using round_even_ge[OF lo] upos by (simp only: mult_le_cancel_right of_int_le_iff; simp)
  finally show "2 powi (expo x) \<le> fl p x" using f by simp
  have "of_int (round_even (x / u)) * u \<le> of_int (2 ^ nat (m + 1)) * u"
    using round_even_le[OF hi] upos by (simp only: mult_le_cancel_right of_int_le_iff; simp)
  also have "\<dots> = 2 powi (m + 1) * u" using m0 by (simp only: powi_int_const[of "m + 1"]; simp)
  also have "\<dots> = 2 powi ((m + 1) + (expo x - m))"
    by (simp only: u_def powi_add2)
  also have "\<dots> = 2 powi (expo x + 1)"
    by (rule arg_cong[where f = "power_int 2"]) simp
  finally show "fl p x \<le> 2 powi (expo x + 1)" using f by simp
qed

lemma fl_zero [simp]: "fl p 0 = 0"
  by (simp add: fl_def)

lemma fl_pos: "0 < x \<Longrightarrow> 1 \<le> p \<Longrightarrow> 0 < fl p x"
  using fl_bounds(1)[of x p] powi_pos2[of "expo x"] by linarith

lemma fl_mono_pos:
  assumes "0 < x" "x \<le> y" "1 \<le> p"
  shows "fl p x \<le> fl p y"
proof (cases "expo x = expo y")
  case True
  define u :: rat where "u = 2 powi (expo y - (int p - 1))"
  have upos: "0 < u" by (simp add: u_def)
  have "x / u \<le> y / u" using assms upos by (simp add: divide_right_mono)
  then have "round_even (x / u) \<le> round_even (y / u)" by (rule round_even_mono)
  then have "of_int (round_even (x / u)) * u \<le> of_int (round_even (y / u)) * u"
    using upos by simp
  then show ?thesis using assms True by (simp add: fl_def u_def Let_def)
next
  case False
  then have lt: "expo x + 1 \<le> expo y" using expo_mono[OF assms(1,2)] by simp
  have "fl p x \<le> 2 powi (expo x + 1)" using fl_bounds(2) assms by simp
  also have "\<dots> \<le> 2 powi (expo y)" using lt by simp
  also have "\<dots> \<le> fl p y" using fl_bounds(1)[of y p] assms by simp
  finally show ?thesis .
qed

lemma fl_mono:
  assumes "0 \<le> x" "x \<le> y" "1 \<le> p"
  shows "fl p x \<le> fl p y"
proof (cases "x = 0")
  case True
  then show ?thesis using fl_pos[of y p] assms by (cases "y = 0") auto
next
  case False
  then show ?thesis using fl_mono_pos[of x y p] assms by simp
qed

lemma fl_powi [simp]:
  assumes "1 \<le> p"
  shows "fl p (2 powi k) = 2 powi k"
proof -
  define m where "m = int p - 1"
  have m0: "0 \<le> m" using assms by (simp add: m_def)
  have "(2::rat) powi k / 2 powi (k - m) = 2 powi m"
    by (simp flip: powi_diff2)
  also have "\<dots> = of_int (2 ^ nat m)" by (rule powi_int_const[OF m0])
  finally have "round_even (2 powi k / 2 powi (k - m)) = 2 ^ nat m"
    by (simp only: round_even_of_int)
  then have "fl p (2 powi k) = of_int (2 ^ nat m) * 2 powi (k - m)"
    by (simp add: fl_def m_def Let_def del: of_int_power)
  also have "\<dots> = 2 powi m * 2 powi (k - m)" by (simp only: powi_int_const[OF m0])
  also have "\<dots> = 2 powi k"
    by (simp flip: powi_add2)
  finally show ?thesis .
qed

lemma fl_one [simp]: "1 \<le> p \<Longrightarrow> fl p 1 = 1"
  using fl_powi[of p 0] by simp

lemma ceil_log2_le_iff:
  assumes "0 < x"
  shows "ceil_log2 x \<le> k \<longleftrightarrow> x \<le> 2 powi k"
proof -
  have b: "2 powi (expo x) \<le> x" "x < 2 powi (expo x + 1)"
    using expo_bounds[of x] assms by auto
  show ?thesis
  proof (cases "x = 2 powi (expo x)")
    case True
    then have "ceil_log2 x = expo x" by (simp add: ceil_log2_def)
    moreover have "x \<le> 2 powi k \<longleftrightarrow> expo x \<le> k" using True powi_le_iff2[of "expo x" k] by simp
    ultimately show ?thesis by simp
  next
    case False
    then have c: "ceil_log2 x = expo x + 1" by (simp add: ceil_log2_def)
    have lt: "2 powi (expo x) < x" using False b(1) by simp
    show ?thesis
    proof
      assume "ceil_log2 x \<le> k"
      then have "(2::rat) powi (expo x + 1) \<le> 2 powi k" using c by simp
      then show "x \<le> 2 powi k" using b(2) by linarith
    next
      assume "x \<le> 2 powi k"
      then have "(2::rat) powi (expo x) < 2 powi k" using lt by linarith
      then show "ceil_log2 x \<le> k" using c by simp
    qed
  qed
qed

lemma of_rat_powi2: "(of_rat ((2::rat) powi k) :: real) = 2 powi k"
  by (cases "0 \<le> k") (simp_all add: power_int_def of_rat_power of_rat_inverse of_rat_divide)

lemma ceil_log2_log:
  assumes "0 < x"
  shows "ceil_log2 x = \<lceil>log 2 (real_of_rat x)\<rceil>"
proof -
  have pos: "0 < real_of_rat x" using assms by simp
  have "\<lceil>log 2 (real_of_rat x)\<rceil> \<le> k \<longleftrightarrow> ceil_log2 x \<le> k" for k
  proof -
    have "\<lceil>log 2 (real_of_rat x)\<rceil> \<le> k \<longleftrightarrow> log 2 (real_of_rat x) \<le> of_int k"
      by (rule ceiling_le_iff)
    also have "\<dots> \<longleftrightarrow> real_of_rat x \<le> 2 powr (of_int k)"
      using pos by (simp add: log_le_iff)
    also have "\<dots> \<longleftrightarrow> real_of_rat x \<le> 2 powi k"
      by (simp add: powr_real_of_int')
    also have "\<dots> \<longleftrightarrow> real_of_rat x \<le> real_of_rat (2 powi k)"
      by (simp only: of_rat_powi2)
    also have "\<dots> \<longleftrightarrow> x \<le> 2 powi k" by (rule of_rat_less_eq)
    also have "\<dots> \<longleftrightarrow> ceil_log2 x \<le> k" using ceil_log2_le_iff[OF assms] by simp
    finally show ?thesis .
  qed
  then show ?thesis by (metis order_refl order_antisym)
qed

lemma to_float_mono: "0 \<le> x \<Longrightarrow> x \<le> y \<Longrightarrow> to_float x \<le> to_float y"
  by (simp add: to_float_def fl_mono)

lemma to_float_pos: "0 < x \<Longrightarrow> 0 < to_float x"
  by (simp add: to_float_def fl_pos)

lemma to_float_powi [simp]: "to_float (2 powi k) = 2 powi k"
  by (simp add: to_float_def)

lemma to_float_one [simp]: "to_float 1 = 1"
  by (simp add: to_float_def)

lemma to_float_zero [simp]: "to_float 0 = 0"
  by (simp add: to_float_def)

lemma probability_bounds:
  assumes "0 < f" "f \<le> n"
  shows "0 < probability f n" and "probability f n \<le> 1"
proof -
  have fp: "0 < to_float (of_int f)" using assms by (simp add: to_float_pos)
  have fn: "to_float (of_int f) \<le> to_float (of_int n)"
    using assms by (intro to_float_mono) auto
  have q: "0 < to_float (of_int f) / to_float (of_int n)"
    using fp fn by (simp add: zero_less_divide_iff)
  have q1: "to_float (of_int f) / to_float (of_int n) \<le> 1"
    using fp fn by (simp add: divide_le_eq_1)
  show "0 < probability f n" using q by (simp add: probability_def to_float_pos)
  show "probability f n \<le> 1"
    using to_float_mono[OF _ q1] q by (simp add: probability_def)
qed

lemma precision_of_nonneg:
  assumes "0 < p" "p \<le> 1"
  shows "0 \<le> precision_of p"
proof -
  have "1 \<le> 1 / p" using assms by (simp add: le_divide_eq_1)
  then have "to_float 1 \<le> to_float (1 / p)" by (intro to_float_mono) auto
  then have ge: "1 \<le> to_float (1 / p)" by simp
  have "\<not> to_float (1 / p) \<le> 2 powi (-1)" using ge by (simp add: power_int_minus)
  then have "\<not> ceil_log2 (to_float (1 / p)) \<le> -1"
    using ceil_log2_le_iff[of "to_float (1 / p)" "-1"] ge by simp
  then show ?thesis by (simp add: precision_of_def)
qed

lemma d2b_loop_stop:
  "\<not> (0 < decimal \<and> 0 < precision) \<Longrightarrow>
   d2b_loop binary decimal precision = (binary, decimal, precision)"
  by (subst d2b_loop.simps) (simp only: if_False)

lemma d2b_loop_one:
  "0 < decimal \<Longrightarrow> 0 < precision \<Longrightarrow> 1 \<le> to_float (decimal * 2) \<Longrightarrow>
   d2b_loop binary decimal precision =
     d2b_loop (binary @ ''1'') (to_float (to_double (to_float (decimal * 2) - 1))) (precision - 1)"
  by (subst d2b_loop.simps) (simp add: Let_def)

lemma d2b_loop_zero:
  "0 < decimal \<Longrightarrow> 0 < precision \<Longrightarrow> \<not> 1 \<le> to_float (decimal * 2) \<Longrightarrow>
   d2b_loop binary decimal precision =
     d2b_loop (binary @ ''0'') (to_float (to_float (decimal * 2))) (precision - 1)"
  by (subst d2b_loop.simps) (simp add: Let_def)

lemma d2b_loop_length:
  "d2b_loop binary decimal precision = (binary', decimal', precision') \<Longrightarrow>
   length binary' + nat precision' = length binary + nat precision"
proof (induction binary decimal precision rule: d2b_loop.induct)
  case (1 binary decimal precision)
  show ?case
  proof (cases "0 < decimal \<and> 0 < precision")
    case False
    from d2b_loop_stop[OF False, of binary] "1.prems" show ?thesis by auto
  next
    case True
    show ?thesis
    proof (cases "1 \<le> to_float (decimal * 2)")
      case one: True
      have "d2b_loop (binary @ ''1'') (to_float (to_double (to_float (decimal * 2) - 1))) (precision - 1)
              = (binary', decimal', precision')"
        using d2b_loop_one[of decimal precision binary] "1.prems"(1) True one by simp
      from "1.IH"(1)[OF True refl one this] True show ?thesis
        by (simp add: nat_diff_distrib)
    next
      case zero: False
      have "d2b_loop (binary @ ''0'') (to_float (to_float (decimal * 2))) (precision - 1)
              = (binary', decimal', precision')"
        using d2b_loop_zero[of decimal precision binary] "1.prems"(1) True zero by simp
      from "1.IH"(2)[OF True refl zero this] True show ?thesis
        by (simp add: nat_diff_distrib)
    qed
  qed
qed

lemma length_decimalToBinary: "length (decimalToBinary decimal precision) = nat precision"
proof -
  obtain b d p where r: "d2b_loop [] decimal precision = (b, d, p)"
    by (cases "d2b_loop [] decimal precision")
  from d2b_loop_length[OF r] show ?thesis
    by (simp add: decimalToBinary_def r pad_zeros_def)
qed

lemma d2b_loop_bits:
  "d2b_loop binary decimal precision = (binary', decimal', precision') \<Longrightarrow>
   set binary \<subseteq> {CHR ''0'', CHR ''1''} \<Longrightarrow> set binary' \<subseteq> {CHR ''0'', CHR ''1''}"
proof (induction binary decimal precision rule: d2b_loop.induct)
  case (1 binary decimal precision)
  show ?case
  proof (cases "0 < decimal \<and> 0 < precision")
    case False
    from d2b_loop_stop[OF False, of binary] "1.prems" show ?thesis by auto
  next
    case True
    show ?thesis
    proof (cases "1 \<le> to_float (decimal * 2)")
      case one: True
      have "d2b_loop (binary @ ''1'') (to_float (to_double (to_float (decimal * 2) - 1))) (precision - 1)
              = (binary', decimal', precision')"
        using d2b_loop_one[of decimal precision binary] "1.prems"(1) True one by simp
      from "1.IH"(1)[OF True refl one this] "1.prems"(2) show ?thesis by simp
    next
      case zero: False
      have "d2b_loop (binary @ ''0'') (to_float (to_float (decimal * 2))) (precision - 1)
              = (binary', decimal', precision')"
        using d2b_loop_zero[of decimal precision binary] "1.prems"(1) True zero by simp
      from "1.IH"(2)[OF True refl zero this] "1.prems"(2) show ?thesis by simp
    qed
  qed
qed

lemma decimalToBinary_bits: "set (decimalToBinary decimal precision) \<subseteq> {CHR ''0'', CHR ''1''}"
proof -
  obtain b d p where r: "d2b_loop [] decimal precision = (b, d, p)"
    by (cases "d2b_loop [] decimal precision")
  from d2b_loop_bits[OF r] show ?thesis
    by (auto simp add: decimalToBinary_def r pad_zeros_def)
qed

subsection \<open>Where the rounding does not show\<close>

lemma expo_scale:
  assumes "x \<noteq> 0"
  shows "expo (x * 2 powi j) = expo x + j"
proof (rule expo_unique)
  note b = expo_bounds[OF assms]
  have a: "\<bar>x * 2 powi j\<bar> = \<bar>x\<bar> * 2 powi j" by (simp add: abs_mult)
  have "2 powi (expo x + j) = 2 powi (expo x) * (2::rat) powi j" by (rule powi_add2)
  also have "\<dots> \<le> \<bar>x\<bar> * 2 powi j" using b by (simp add: mult_right_mono)
  finally show "2 powi (expo x + j) \<le> \<bar>x * 2 powi j\<bar>" by (simp only: a)
  have "\<bar>x\<bar> * 2 powi j < 2 powi (expo x + 1) * (2::rat) powi j"
    using b by (simp add: mult_strict_right_mono)
  also have "\<dots> = 2 powi (expo x + 1 + j)" by (simp only: powi_add2)
  also have "expo x + 1 + j = expo x + j + 1" by simp
  finally show "\<bar>x * 2 powi j\<bar> < 2 powi (expo x + j + 1)" by (simp only: a)
qed

lemma fl_scale: "fl p (x * 2 powi j) = fl p x * 2 powi j"
proof (cases "x = 0")
  case True
  then show ?thesis by simp
next
  case False
  define u :: rat where "u = 2 powi (expo x - (int p - 1))"
  have upos: "0 < u" by (simp add: u_def)
  have "expo x + j - (int p - 1) = (expo x - (int p - 1)) + j" by simp
  then have u': "(2::rat) powi (expo x + j - (int p - 1)) = u * 2 powi j"
    by (simp only: u_def powi_add2)
  have q: "x * 2 powi j / (u * 2 powi j) = x / u" by simp
  have nz: "x * 2 powi j \<noteq> 0" using False by simp
  have "fl p (x * 2 powi j) = of_int (round_even (x / u)) * (u * 2 powi j)"
    using nz by (simp only: fl_def expo_scale[OF False] u' Let_def q if_False)
  moreover have "fl p x = of_int (round_even (x / u)) * u"
    using False by (simp add: fl_def u_def Let_def)
  ultimately show ?thesis by simp
qed

lemma to_float_scale: "to_float (x * 2 powi j) = to_float x * 2 powi j"
  by (simp only: to_float_def fl_scale)

lemma to_float_below_one: "to_float (16777215 / 16777216) = 16777215 / 16777216"
  by code_simp

lemma to_float_above_one: "to_float (16777216 / 16777215) = 8388609 / 8388608"
  by code_simp

text \<open>An \<^verbatim>\<open>int\<close> up to \<open>2\<^sup>2\<^sup>4\<close> converts to \<^verbatim>\<open>float\<close> without rounding.\<close>

lemma to_float_int:
  assumes "0 \<le> m" "m \<le> 16777216"
  shows "to_float (of_int m) = of_int m"
proof -
  consider "m = 0" | "m = 16777216" | "1 \<le> m" "m < 16777216" using assms by linarith
  then show ?thesis
  proof cases
    case 1
    then show ?thesis by simp
  next
    case 2
    have "to_float (2 powi 24) = 2 powi 24" by (rule to_float_powi)
    then show ?thesis using 2 by simp
  next
    case 3
    define x :: rat where "x = of_int m"
    define e where "e = expo x"
    have xpos: "0 < x" using 3 by (simp add: x_def)
    have b: "2 powi e \<le> x" "x < 2 powi (e + 1)"
      using expo_bounds[of x] xpos by (simp_all add: e_def)
    have "(2::rat) powi 0 \<le> x" using 3 by (simp add: x_def)
    then have "(2::rat) powi 0 < 2 powi (e + 1)" using b(2) by (rule le_less_trans)
    then have "0 < e + 1" by (simp only: powi_less_iff2)
    then have e0: "0 \<le> e" by simp
    have "x < 2 powi 24" using 3 by (simp add: x_def)
    with b(1) have "(2::rat) powi e < 2 powi 24" by (rule le_less_trans)
    then have "e < 24" by (simp only: powi_less_iff2)
    then have e23: "e \<le> 23" by simp
    define d where "d = nat (23 - e)"
    have u: "(2::rat) powi (e - (int 24 - 1)) = 1 / 2 ^ d"
    proof -
      have "e - (int 24 - 1) = - int d" using e23 by (simp add: d_def)
      then have "(2::rat) powi (e - (int 24 - 1)) = 2 powi (- int d)" by (simp only:)
      also have "\<dots> = inverse (2 ^ d)" by (simp only: power_int_minus power_int_of_nat)
      finally show ?thesis by (simp only: inverse_eq_divide)
    qed
    have "x / (1 / 2 ^ d) = of_int (m * 2 ^ d)" by (simp add: x_def)
    then have r: "round_even (x / (1 / 2 ^ d)) = m * 2 ^ d"
      by (simp only: round_even_of_int)
    have "fl 24 x = of_int (round_even (x / (1 / 2 ^ d))) * (1 / 2 ^ d)"
      using xpos u by (simp add: fl_def Let_def e_def)
    also have "\<dots> = x" by (simp only: r) (simp add: x_def)
    finally show ?thesis by (simp add: to_float_def x_def)
  qed
qed

lemma powi_neg2: "(2::rat) powi (- k) = 1 / 2 powi k"
  by (simp only: power_int_minus inverse_eq_divide)

lemma ceil_log2_eqI:
  assumes "0 < x" "0 < y" "\<And>k. x \<le> 2 powi k \<longleftrightarrow> y \<le> 2 powi k"
  shows "ceil_log2 x = ceil_log2 y"
proof (rule antisym)
  have "ceil_log2 y \<le> ceil_log2 y" by simp
  then have "y \<le> 2 powi (ceil_log2 y)" by (simp only: ceil_log2_le_iff[OF assms(2)])
  then have "x \<le> 2 powi (ceil_log2 y)" by (simp only: assms(3))
  then show "ceil_log2 x \<le> ceil_log2 y" by (simp only: ceil_log2_le_iff[OF assms(1)])
  have "ceil_log2 x \<le> ceil_log2 x" by simp
  then have "x \<le> 2 powi (ceil_log2 x)" by (simp only: ceil_log2_le_iff[OF assms(1)])
  then have "y \<le> 2 powi (ceil_log2 x)" by (simp only: assms(3)[symmetric])
  then show "ceil_log2 y \<le> ceil_log2 x" by (simp only: ceil_log2_le_iff[OF assms(2)])
qed

text \<open>
  Up to a line length of \<open>2\<^sup>2\<^sup>4\<close> the rounding of the quotient and of its reciprocal
  does not change the precision: it is \<open>\<lceil>log\<^sub>2 (n / f)\<rceil>\<close> for the exact quotient.
\<close>

lemma precision_exact:
  assumes f: "0 < f" "f \<le> n" and n: "n \<le> 16777216"
  shows "precision_of (probability f n) = ceil_log2 (of_int n / of_int f)"
proof -
  define q :: rat where "q = of_int n / of_int f"
  define p' where "p' = to_float (of_int f / of_int n)"
  define r where "r = to_float (1 / p')"
  have npos: "0 < n" using f by simp
  have qpos: "0 < q" using f npos by (simp add: q_def)
  have q1: "1 \<le> q" using f by (simp add: q_def)
  have fn: "of_int f / of_int n = 1 / q" by (simp add: q_def)
  have fnpos: "(0::rat) < of_int f / of_int n" using f npos by simp
  have pr: "probability f n = p'"
    using f n by (simp add: probability_def p'_def to_float_int)
  have pb: "0 < p'" "p' \<le> 1" using probability_bounds[OF f] by (simp_all only: pr)
  have rpos: "0 < r" unfolding r_def using pb by (intro to_float_pos) simp
  have "to_float 1 \<le> to_float (1 / p')" using pb by (intro to_float_mono) simp_all
  then have r1: "1 \<le> r" by (simp add: r_def)
  have iff: "r \<le> 2 powi k \<longleftrightarrow> q \<le> 2 powi k" for k
  proof
    assume "q \<le> 2 powi k"
    then have "1 / 2 powi k \<le> 1 / q" using qpos by (simp add: frac_le)
    then have lo: "(2::rat) powi (- k) \<le> of_int f / of_int n"
      by (simp only: fn powi_neg2)
    have "to_float (2 powi (- k)) \<le> to_float (of_int f / of_int n)"
      using lo by (intro to_float_mono) simp_all
    then have "(2::rat) powi (- k) \<le> p'" by (simp only: to_float_powi p'_def)
    then have "1 / p' \<le> 1 / 2 powi (- k)" by (intro frac_le) simp_all
    then have "1 / p' \<le> 2 powi k" by (simp add: powi_neg2)
    then have "to_float (1 / p') \<le> to_float (2 powi k)"
      using pb by (intro to_float_mono) simp_all
    then show "r \<le> 2 powi k" by (simp only: r_def to_float_powi)
  next
    assume le: "r \<le> 2 powi k"
    show "q \<le> 2 powi k"
    proof (rule ccontr)
      assume "\<not> q \<le> 2 powi k"
      then have gt: "2 powi k < q" by simp
      have "1 \<le> (2::rat) powi k" using r1 le by linarith
      then have "(2::rat) powi 0 \<le> 2 powi k" by simp
      then have k0: "0 \<le> k" by (simp only: powi_le_iff2)
      define K where "K = nat k"
      have pk: "(2::rat) powi k = of_int (2 ^ K)" using k0 by (simp add: K_def powi_int_const)
      have "of_int (2 ^ K) * of_int f < (of_int n :: rat)"
        using gt f by (simp add: q_def pk pos_less_divide_eq)
      then have "(of_int (2 ^ K * f) :: rat) < of_int n" by simp
      then have "2 ^ K * f < n" by (simp only: of_int_less_iff)
      then have "2 ^ K * f \<le> n - 1" by simp
      then have "2 ^ K * f * 16777216 \<le> (n - 1) * 16777216" by simp
      also have "\<dots> \<le> n * 16777215" using n by simp
      finally have "2 ^ K * f * 16777216 \<le> n * 16777215" .
      then have "(of_int (2 ^ K * f * 16777216) :: rat) \<le> of_int (n * 16777215)"
        by (simp only: of_int_le_iff)
      then have "of_int f * (2 powi k * 16777216) \<le> (of_int n :: rat) * 16777215"
        by (simp add: pk mult_ac)
      then have "of_int f / of_int n \<le> (16777215 / 16777216 :: rat) / 2 powi k"
        using npos by (simp add: field_simps)
      then have y: "of_int f / of_int n \<le> (16777215 / 16777216 :: rat) * 2 powi (- k)"
        by (simp only: powi_neg2 times_divide_eq_right mult_1_right)
      have "p' \<le> to_float ((16777215 / 16777216) * 2 powi (- k))"
        unfolding p'_def using fnpos y by (intro to_float_mono) simp_all
      then have py: "p' \<le> (16777215 / 16777216) * 2 powi (- k)"
        by (simp only: to_float_scale to_float_below_one)
      have "1 / ((16777215 / 16777216) * 2 powi (- k)) \<le> 1 / p'"
        using pb(1) py by (intro frac_le) simp_all
      moreover have "1 / ((16777215 / 16777216) * 2 powi (- k)) = (16777216 / 16777215 :: rat) * 2 powi k"
        by (simp only: powi_neg2) simp
      ultimately have "(16777216 / 16777215 :: rat) * 2 powi k \<le> 1 / p'" by simp
      then have "to_float ((16777216 / 16777215) * 2 powi k) \<le> to_float (1 / p')"
        by (intro to_float_mono) simp_all
      then have "(8388609 / 8388608) * 2 powi k \<le> r"
        by (simp only: to_float_scale to_float_above_one r_def)
      moreover have "(2::rat) powi k < (8388609 / 8388608) * 2 powi k" by simp
      ultimately show False using le by linarith
    qed
  qed
  have "ceil_log2 r = ceil_log2 q" using rpos qpos iff by (rule ceil_log2_eqI)
  then show ?thesis by (simp add: precision_of_def pr r_def q_def)
qed

subsection \<open>Narrowing and the scanned prefix\<close>

lemma char_val_inj: "char_val sg a = char_val sg b \<Longrightarrow> a = b"
proof -
  have r: "0 \<le> (of_char c :: int) \<and> (of_char c :: int) < 256" for c
  proof -
    have "(of_char c :: int) = int (of_char c)" by (simp add: of_nat_of_char)
    then show ?thesis using nat_of_char_less_256[of c] by simp
  qed
  assume "char_val sg a = char_val sg b"
  then have "(of_char a :: int) = of_char b"
    using r[of a] r[of b] by (auto simp: char_val_def Let_def split: if_splits)
  then show ?thesis by simp
qed

lemma lineSize_le: "lineSize inp \<le> int (length inp)"
  by (simp add: lineSize_def int_of_size_def signed_of_nat signed_take_bit_int_less_eq_self_iff)

lemma lineSize_short: "length inp < 2 ^ 31 \<Longrightarrow> lineSize inp = int (length inp)"
  by (simp add: lineSize_def int_of_size_def signed_of_nat signed_take_bit_int_eq_self)

lemma length_scanned: "int (length (scanned inp)) = max 0 (lineSize inp)"
  using lineSize_le[of inp] by (auto simp add: scanned_def min_def max_def)

lemma scanned_short: "length inp < 2 ^ 31 \<Longrightarrow> scanned inp = inp"
  by (simp add: scanned_def lineSize_short)

subsection \<open>The frequency table\<close>

lemma set_keys_map_incr: "fst ` set (map_incr sg c m) = insert c (fst ` set m)"
  by (induction sg c m rule: map_incr.induct) (simp_all add: insert_commute)

lemma key_sorted_Cons:
  "key_sorted sg ((k, n) # m) \<longleftrightarrow>
     (\<forall>k' \<in> fst ` set m. char_val sg k < char_val sg k') \<and> key_sorted sg m"
  by (simp add: key_sorted_def)

lemma key_sorted_map_incr: "key_sorted sg m \<Longrightarrow> key_sorted sg (map_incr sg c m)"
proof (induction m)
  case Nil
  then show ?case by (simp add: key_sorted_def)
next
  case (Cons kn m)
  obtain k n where kn: "kn = (k, n)" by (cases kn)
  from Cons.prems have above: "\<forall>k' \<in> fst ` set m. char_val sg k < char_val sg k'"
    and rest: "key_sorted sg m"
    by (simp_all add: kn key_sorted_Cons)
  consider "c = k" | "c \<noteq> k" "char_val sg c < char_val sg k"
    | "c \<noteq> k" "\<not> char_val sg c < char_val sg k" by blast
  then show ?case
  proof cases
    case 1
    then show ?thesis using above rest by (simp add: kn key_sorted_Cons)
  next
    case 2
    have "\<forall>k' \<in> fst ` set ((k, n) # m). char_val sg c < char_val sg k'"
      using above 2(2) by auto
    then have "key_sorted sg ((c, 1) # (k, n) # m)"
      using Cons.prems unfolding kn by (subst key_sorted_Cons) blast
    then show ?thesis using 2 by (simp add: kn)
  next
    case 3
    have lt: "char_val sg k < char_val sg c"
      using 3 char_val_inj[of sg c k] by linarith
    have "\<forall>k' \<in> fst ` set (map_incr sg c m). char_val sg k < char_val sg k'"
      using above lt by (simp add: set_keys_map_incr)
    then have "key_sorted sg ((k, n) # map_incr sg c m)"
      using Cons.IH[OF rest] by (simp add: key_sorted_Cons)
    then show ?thesis using 3 by (simp add: kn)
  qed
qed

lemma key_sorted_distinct: "key_sorted sg m \<Longrightarrow> distinct (map fst m)"
  unfolding key_sorted_def
  by (induction m) auto

lemma counts_pos_map_incr:
  "\<forall>kn \<in> set m. 0 < snd kn \<Longrightarrow> \<forall>kn \<in> set (map_incr sg c m). 0 < snd kn"
  by (induction sg c m rule: map_incr.induct) simp_all

lemma sum_map_incr: "sum_list (map snd (map_incr sg c m)) = sum_list (map snd m) + 1"
  by (induction sg c m rule: map_incr.induct) simp_all

lemma fold_key_sorted: "key_sorted sg m \<Longrightarrow> key_sorted sg (fold (map_incr sg) xs m)"
  by (induction xs arbitrary: m) (simp_all add: key_sorted_map_incr)

lemma fold_counts_pos:
  "\<forall>kn \<in> set m. 0 < snd kn \<Longrightarrow> \<forall>kn \<in> set (fold (map_incr sg) xs m). 0 < snd kn"
proof (induction xs arbitrary: m)
  case Nil
  then show ?case by simp
next
  case (Cons x xs)
  from Cons.IH[OF counts_pos_map_incr[OF Cons.prems]] show ?case by simp
qed

lemma fold_sum:
  "sum_list (map snd (fold (map_incr sg) xs m)) = sum_list (map snd m) + int (length xs)"
  by (induction xs arbitrary: m) (simp_all add: sum_map_incr)

lemma fold_keys: "fst ` set (fold (map_incr sg) xs m) = fst ` set m \<union> set xs"
  by (induction xs arbitrary: m) (simp_all add: set_keys_map_incr)

lemma sum_list_pos_le:
  fixes ns :: "int list"
  assumes "\<forall>n \<in> set ns. 0 < n" "n \<in> set ns"
  shows "n \<le> sum_list ns"
  using assms
proof (induction ns)
  case Nil
  then show ?case by simp
next
  case (Cons a ns)
  have nn: "0 \<le> sum_list ns" using Cons.prems(1) by (intro sum_list_nonneg) auto
  show ?case
  proof (cases "n = a")
    case True
    then show ?thesis using nn by simp
  next
    case False
    then have "n \<le> sum_list ns" using Cons by auto
    moreover have "0 < a" using Cons.prems(1) by simp
    ultimately show ?thesis by simp
  qed
qed

lemma charCountMap_sorted: "key_sorted sg (charCountMap sg inp)"
  unfolding charCountMap_def by (rule fold_key_sorted) (simp add: key_sorted_def)

lemma charCountMap_keys: "fst ` set (charCountMap sg inp) = set (scanned inp)"
  unfolding charCountMap_def by (simp add: fold_keys)

lemma charCountMap_sum: "sum_list (map snd (charCountMap sg inp)) = int (length (scanned inp))"
  unfolding charCountMap_def by (simp add: fold_sum)

lemma charCountMap_pos: "\<forall>kn \<in> set (charCountMap sg inp). 0 < snd kn"
  unfolding charCountMap_def by (rule fold_counts_pos) simp

lemma charCountMap_count_bounds:
  assumes "(c, n) \<in> set (charCountMap sg inp)"
  shows "0 < n" and "n \<le> lineSize inp"
proof -
  show "0 < n" using charCountMap_pos[of sg inp] assms by auto
  have "\<forall>n \<in> set (map snd (charCountMap sg inp)). 0 < n"
    using charCountMap_pos[of sg inp] by auto
  moreover have "n \<in> set (map snd (charCountMap sg inp))" using assms by force
  ultimately have "n \<le> sum_list (map snd (charCountMap sg inp))" by (rule sum_list_pos_le)
  then have "n \<le> int (length (scanned inp))" by (simp add: charCountMap_sum)
  then show "n \<le> lineSize inp" using \<open>0 < n\<close> by (simp add: length_scanned)
qed

subsection \<open>Sorting\<close>

lemma set_insert_by [simp]: "set (insert_by lt x ys) = insert x (set ys)"
  by (induction ys) auto

lemma set_sort_by [simp]: "set (sort_by lt xs) = set xs"
  by (induction xs) (simp_all add: sort_by_def)

lemma length_insert_by [simp]: "length (insert_by lt x ys) = Suc (length ys)"
  by (induction ys) auto

lemma length_sort_by [simp]: "length (sort_by lt xs) = length xs"
  by (induction xs) (simp_all add: sort_by_def)

lemma sort_by_Cons: "sort_by lt (x # xs) = insert_by lt x (sort_by lt xs)"
  by (simp add: sort_by_def)

lemma sort_by_Nil [simp]: "sort_by lt [] = []"
  by (simp add: sort_by_def)

lemma distinct_map_insert_by:
  "distinct (map f (insert_by lt x ys)) \<longleftrightarrow> f x \<notin> f ` set ys \<and> distinct (map f ys)"
  by (induction ys) auto

lemma distinct_map_sort_by: "distinct (map f (sort_by lt xs)) \<longleftrightarrow> distinct (map f xs)"
  by (induction xs) (simp_all add: sort_by_Cons distinct_map_insert_by)

lemma sorted_insert_by:
  assumes "transp lt" "sorted_wrt lt ys" "\<forall>y \<in> set ys. \<not> lt x y \<longrightarrow> lt y x"
  shows "sorted_wrt lt (insert_by lt x ys)"
  using assms(2,3)
proof (induction ys)
  case Nil
  then show ?case by simp
next
  case (Cons y ys)
  show ?case
  proof (cases "lt x y")
    case True
    have "\<forall>z \<in> set ys. lt x z"
      using True Cons.prems(1) assms(1) by (auto dest: transpD)
    then show ?thesis using True Cons.prems(1) by simp
  next
    case False
    then have "lt y x" using Cons.prems(2) by simp
    moreover have "sorted_wrt lt (insert_by lt x ys)"
      using Cons by simp
    ultimately show ?thesis using False Cons.prems(1) by simp
  qed
qed

lemma sorted_sort_by:
  assumes "transp lt"
    and "\<forall>x \<in> set xs. \<forall>y \<in> set xs. f x \<noteq> f y \<longrightarrow> lt x y \<or> lt y x"
    and "distinct (map f xs)"
  shows "sorted_wrt lt (sort_by lt xs)"
  using assms(2,3)
proof (induction xs)
  case Nil
  then show ?case by simp
next
  case (Cons x xs)
  have "sorted_wrt lt (sort_by lt xs)" using Cons by simp
  moreover have "\<forall>y \<in> set (sort_by lt xs). \<not> lt x y \<longrightarrow> lt y x"
    using Cons.prems by auto
  ultimately show ?case
    using sorted_insert_by[OF assms(1)] by (simp add: sort_by_Cons)
qed

subsection \<open>The comparator\<close>

lemma compareFreqChar_transp: "transp (compareFreqChar sg)"
  by (rule transpI) (auto simp: compareFreqChar_def split: if_splits)

lemma compareFreqChar_total:
  assumes "character a \<noteq> character b"
  shows "compareFreqChar sg a b \<or> compareFreqChar sg b a"
proof -
  have "char_val sg (character a) \<noteq> char_val sg (character b)"
    using assms char_val_inj by blast
  then show ?thesis by (auto simp: compareFreqChar_def)
qed

lemma compareFreqChar_irrefl: "\<not> compareFreqChar sg a a"
  by (simp add: compareFreqChar_def)

lemma compareFreqChar_cong:
  "character a = character a' \<Longrightarrow> freq a = freq a' \<Longrightarrow>
   character b = character b' \<Longrightarrow> freq b = freq b' \<Longrightarrow>
   compareFreqChar sg a b = compareFreqChar sg a' b'"
  by (simp add: compareFreqChar_def)

subsection \<open>The sorted vector before coding\<close>

lemma map_character_entries_of [simp]: "map character (entries_of m) = map fst m"
  by (induction m) (auto simp: entries_of_def)

lemma map_freq_entries_of [simp]: "map freq (entries_of m) = map snd m"
  by (induction m) (auto simp: entries_of_def)

lemma character_set_entries_of: "character ` set (entries_of m) = fst ` set m"
  using arg_cong[OF map_character_entries_of, of set m] by (simp only: set_map)

lemma entries_of_mem:
  "e \<in> set (entries_of m) \<Longrightarrow> (character e, freq e) \<in> set m"
  by (auto simp: entries_of_def)

lemma sorted_entries_distinct: "distinct (map character (sorted_entries sg inp))"
  unfolding sorted_entries_def
  by (simp add: distinct_map_sort_by key_sorted_distinct[OF charCountMap_sorted])

lemma sorted_entries_sorted: "sorted_wrt (compareFreqChar sg) (sorted_entries sg inp)"
  unfolding sorted_entries_def
proof (rule sorted_sort_by[where f = character])
  show "transp (compareFreqChar sg)" by (rule compareFreqChar_transp)
  show "\<forall>x\<in>set (entries_of (charCountMap sg inp)). \<forall>y\<in>set (entries_of (charCountMap sg inp)).
          character x \<noteq> character y \<longrightarrow> compareFreqChar sg x y \<or> compareFreqChar sg y x"
    using compareFreqChar_total by blast
  show "distinct (map character (entries_of (charCountMap sg inp)))"
    by (simp add: key_sorted_distinct[OF charCountMap_sorted])
qed

lemma sorted_wrt_unique:
  assumes "transp lt" "\<And>x. \<not> lt x x"
  shows "sorted_wrt lt xs \<Longrightarrow> sorted_wrt lt ys \<Longrightarrow> set xs = set ys \<Longrightarrow> xs = ys"
proof (induction xs arbitrary: ys)
  case Nil
  then show ?case by simp
next
  case (Cons x xs)
  then obtain y ys' where ys: "ys = y # ys'" by (cases ys) auto
  have sx: "\<forall>z \<in> set xs. lt x z" and sy: "\<forall>z \<in> set ys'. lt y z"
    using Cons.prems(1,2) ys by simp_all
  have xy: "x = y"
  proof (rule ccontr)
    assume ne: "x \<noteq> y"
    then have "x \<in> set ys'" "y \<in> set xs" using Cons.prems(3) ys by auto
    then have "lt y x" "lt x y" using sx sy by blast+
    then have "lt x x" using assms(1) by (meson transpD)
    then show False using assms(2) by blast
  qed
  have "x \<notin> set xs" "y \<notin> set ys'" using sx sy assms(2) by blast+
  then have "set xs = set ys'" using Cons.prems(3) ys xy by auto
  then have "xs = ys'" using Cons.IH[of ys'] Cons.prems(1,2) ys by simp
  then show ?case using xy ys by simp
qed

lemma sorted_wrt_strict:
  assumes "\<forall>x \<in> set ys. \<forall>y \<in> set ys. x \<noteq> y \<longrightarrow> lt x y \<or> lt y x"
  shows "distinct ys \<Longrightarrow> sorted_wrt (\<lambda>a b. \<not> lt b a) ys \<Longrightarrow> sorted_wrt lt ys"
  using assms by (induction ys) auto

text \<open>
  Any arrangement of distinct, pairwise comparable elements in which no later element
  is before an earlier one, which is what \<^verbatim>\<open>std::sort\<close> returns, is the list that
  insertion sort returns.
\<close>

lemma sort_by_unique:
  assumes tr: "transp lt" and irr: "\<And>x. \<not> lt x x"
    and total: "\<forall>x \<in> set xs. \<forall>y \<in> set xs. f x \<noteq> f y \<longrightarrow> lt x y \<or> lt y x"
    and dist: "distinct (map f xs)"
    and perm: "set ys = set xs" "length ys = length xs"
    and ordered: "sorted_wrt (\<lambda>a b. \<not> lt b a) ys"
  shows "ys = sort_by lt xs"
proof -
  have dx: "distinct xs" and inj: "inj_on f (set xs)"
    using dist by (simp_all add: distinct_map)
  have "card (set ys) = length ys"
    using dx perm by (simp add: distinct_card)
  then have dy: "distinct ys" by (rule card_distinct)
  have "\<forall>x \<in> set ys. \<forall>y \<in> set ys. x \<noteq> y \<longrightarrow> lt x y \<or> lt y x"
    using total inj perm(1) by (auto dest: inj_onD)
  then have sy: "sorted_wrt lt ys"
    using dy ordered by (rule sorted_wrt_strict)
  have sx: "sorted_wrt lt (sort_by lt xs)"
    using tr total dist by (rule sorted_sort_by)
  show ?thesis
    using sorted_wrt_unique[OF tr irr sy sx] perm(1) by simp
qed

lemma sorted_entries_unique:
  assumes "set ys = set (entries_of (charCountMap sg inp))"
    and "length ys = length (entries_of (charCountMap sg inp))"
    and "sorted_wrt (\<lambda>a b. \<not> compareFreqChar sg b a) ys"
  shows "ys = sorted_entries sg inp"
  unfolding sorted_entries_def
proof (rule sort_by_unique[where f = character, OF compareFreqChar_transp compareFreqChar_irrefl _ _ assms])
  show "distinct (map character (entries_of (charCountMap sg inp)))"
    by (simp add: key_sorted_distinct[OF charCountMap_sorted])
  show "\<forall>x\<in>set (entries_of (charCountMap sg inp)). \<forall>y\<in>set (entries_of (charCountMap sg inp)).
      character x \<noteq> character y \<longrightarrow> compareFreqChar sg x y \<or> compareFreqChar sg y x"
    using compareFreqChar_total by blast
qed

lemma sorted_entries_characters:
  "character ` set (sorted_entries sg inp) = set (scanned inp)"
proof -
  have "character ` set (sorted_entries sg inp) = character ` set (entries_of (charCountMap sg inp))"
    unfolding sorted_entries_def by simp
  then show ?thesis by (simp add: character_set_entries_of charCountMap_keys)
qed

lemma sorted_entries_freq:
  assumes "e \<in> set (sorted_entries sg inp)"
  shows "0 < freq e" and "freq e \<le> lineSize inp"
proof -
  have "(character e, freq e) \<in> set (charCountMap sg inp)"
    using assms by (simp add: sorted_entries_def entries_of_mem)
  then show "0 < freq e" and "freq e \<le> lineSize inp"
    by (rule charCountMap_count_bounds)+
qed

subsection \<open>The coding loop\<close>

lemma assign_codes_Cons:
  "assign_codes n cum m (e # es) =
     (let sc = decimalToBinary cum (precision_of (probability (freq e) n));
          r = assign_codes n (to_float (cum + probability (freq e) n)) (m(character e \<mapsto> sc)) es
      in (e\<lparr>code := sc\<rparr> # fst r, snd r))"
  by (simp add: Let_def split: prod.splits)

declare assign_codes.simps(2) [simp del]

lemma assign_codes_character [simp]:
  "map character (fst (assign_codes n cum m es)) = map character es"
  by (induction es arbitrary: cum m) (simp_all add: assign_codes_Cons Let_def)

lemma assign_codes_freq [simp]:
  "map freq (fst (assign_codes n cum m es)) = map freq es"
  by (induction es arbitrary: cum m) (simp_all add: assign_codes_Cons Let_def)

lemma assign_codes_length [simp]:
  "length (fst (assign_codes n cum m es)) = length es"
  by (induction es arbitrary: cum m) (simp_all add: assign_codes_Cons Let_def)

lemma assign_codes_code_length:
  "e \<in> set (fst (assign_codes n cum m es)) \<Longrightarrow>
   length (code e) = nat (precision_of (probability (freq e) n))"
  by (induction es arbitrary: cum m)
     (auto simp add: assign_codes_Cons Let_def length_decimalToBinary)

lemma assign_codes_code_bits:
  "e \<in> set (fst (assign_codes n cum m es)) \<Longrightarrow> set (code e) \<subseteq> {CHR ''0'', CHR ''1''}"
proof (induction es arbitrary: cum m)
  case Nil
  then show ?case by simp
next
  case (Cons a es)
  then show ?case
    using decimalToBinary_bits[of cum "precision_of (probability (freq a) n)"]
    by (auto simp add: assign_codes_Cons Let_def)
qed

lemma assign_codes_dom:
  "dom (snd (assign_codes n cum m es)) = dom m \<union> character ` set es"
  by (induction es arbitrary: cum m) (auto simp add: assign_codes_Cons Let_def)

lemma assign_codes_keep:
  "c \<notin> character ` set es \<Longrightarrow> snd (assign_codes n cum m es) c = m c"
  by (induction es arbitrary: cum m) (auto simp add: assign_codes_Cons Let_def)

lemma assign_codes_map:
  "distinct (map character es) \<Longrightarrow> e \<in> set (fst (assign_codes n cum m es)) \<Longrightarrow>
   snd (assign_codes n cum m es) (character e) = Some (code e)"
proof (induction es arbitrary: cum m)
  case Nil
  then show ?case by simp
next
  case (Cons a es)
  define sc where "sc = decimalToBinary cum (precision_of (probability (freq a) n))"
  define r where "r = assign_codes n (to_float (cum + probability (freq a) n)) (m(character a \<mapsto> sc)) es"
  have eq: "assign_codes n cum m (a # es) = (a\<lparr>code := sc\<rparr> # fst r, snd r)"
    by (simp add: assign_codes_Cons Let_def sc_def r_def)
  from Cons.prems(2) consider "e = a\<lparr>code := sc\<rparr>" | "e \<in> set (fst r)" by (auto simp: eq)
  then show ?case
  proof cases
    case 1
    have "character a \<notin> character ` set es" using Cons.prems(1) by auto
    then have "snd r (character a) = (m(character a \<mapsto> sc)) (character a)"
      unfolding r_def by (rule assign_codes_keep)
    then show ?thesis using 1 by (simp add: eq)
  next
    case 2
    from Cons.prems(1) have d: "distinct (map character es)" by simp
    have "snd r (character e) = Some (code e)"
      unfolding r_def using d 2[unfolded r_def] by (rule Cons.IH)
    then show ?thesis by (simp only: eq snd_conv)
  qed
qed

subsection \<open>The claims about the encoder\<close>

text \<open>
  C1. For the line \<^verbatim>\<open>aab\<close> the encoder counts a:2 and b:1, orders the alphabet a, b,
  gives a the code 0 (precision 1, from cumulative probability 0) and b the code 10
  (precision 2, from the cumulative probability reached after a), and encodes the line
  as 0010.
\<close>

theorem shannonCode_aab:
  "charCountMap sg ''aab'' = [(CHR ''a'', 2), (CHR ''b'', 1)]
   \<and> precision_of (probability 2 (lineSize ''aab'')) = 1
   \<and> precision_of (probability 1 (lineSize ''aab'')) = 2
   \<and> decimalToBinary 0 1 = ''0''
   \<and> decimalToBinary (to_float (0 + probability 2 (lineSize ''aab''))) 2 = ''10''
   \<and> shannonCode sg ''aab'' =
       ([\<lparr>character = CHR ''a'', freq = 2, code = ''0''\<rparr>,
         \<lparr>character = CHR ''b'', freq = 1, code = ''10''\<rparr>], ''0010'')"
  by (induct sg) code_simp+

lemma coded_eq: "coded sg inp = assign_codes (lineSize inp) 0 Map.empty (sorted_entries sg inp)"
  by (simp add: coded_def sorted_entries_def)

lemma sorted_wrt_compareFreqChar_cong:
  assumes "map character xs = map character ys" "map freq xs = map freq ys"
  shows "sorted_wrt (compareFreqChar sg) xs = sorted_wrt (compareFreqChar sg) ys"
proof -
  have len: "length xs = length ys" using assms(1) by (rule map_eq_imp_length_eq)
  have c: "character (xs ! i) = character (ys ! i)" if "i < length ys" for i
    using arg_cong[OF assms(1), of "\<lambda>l. l ! i"] that len by simp
  have f: "freq (xs ! i) = freq (ys ! i)" if "i < length ys" for i
    using arg_cong[OF assms(2), of "\<lambda>l. l ! i"] that len by simp
  have "compareFreqChar sg (xs ! i) (xs ! j) = compareFreqChar sg (ys ! i) (ys ! j)"
    if "i < j" "j < length ys" for i j
    using that c[of i] c[of j] f[of i] f[of j] by (intro compareFreqChar_cong) auto
  then show ?thesis by (simp add: sorted_wrt_iff_nth_less len)
qed

lemma charCodeVec_of_sorted: "sorted_wrt (compareFreqChar sg) (charCodeVec_of sg inp)"
  unfolding charCodeVec_of_def coded_eq
  using sorted_entries_sorted[of sg inp]
  by (simp add: sorted_wrt_compareFreqChar_cong[of "fst (assign_codes _ _ _ (sorted_entries sg inp))" "sorted_entries sg inp"])

lemma charCodeVec_of_characters:
  "character ` set (charCodeVec_of sg inp) = set (scanned inp)"
proof -
  have "map character (charCodeVec_of sg inp) = map character (sorted_entries sg inp)"
    by (simp only: charCodeVec_of_def coded_eq assign_codes_character)
  then have "set (map character (charCodeVec_of sg inp)) = set (map character (sorted_entries sg inp))"
    by simp
  then show ?thesis by (simp add: sorted_entries_characters)
qed

lemma charCodeVec_of_in_line:
  assumes "i < length (charCodeVec_of sg inp)"
  shows "character (charCodeVec_of sg inp ! i) \<in> set inp"
proof -
  have "character (charCodeVec_of sg inp ! i) \<in> character ` set (charCodeVec_of sg inp)"
    using assms by simp
  then have "character (charCodeVec_of sg inp ! i) \<in> set (scanned inp)"
    by (simp only: charCodeVec_of_characters)
  then show ?thesis unfolding scanned_def by (rule in_set_takeD)
qed

lemma char_val_byte:
  assumes "\<not> sg \<or> of_char c < (128::nat)"
  shows "char_val sg c = int (of_char c)"
proof -
  have "(of_char c :: int) = int (of_char c)" by (simp only: of_nat_of_char)
  then show ?thesis using assms by (auto simp: char_val_def Let_def)
qed

text \<open>
  C2, as amended. For every line the alphabet is sorted by descending frequency, ties
  broken by descending value of the C++ \<^verbatim>\<open>char\<close>: \<^verbatim>\<open>compareFreqChar\<close> holds between every
  earlier and every later entry, adjacent ones included, and it holds strictly since no
  two entries share a character. Where \<^verbatim>\<open>char\<close> is unsigned, or every byte of the line
  is below 128, that value is the byte value.
\<close>

theorem alphabet_sorted:
  "sorted_wrt (compareFreqChar sg) (charCodeVec_of sg inp) \<and>
   (\<forall>i j. i < j \<and> j < length (charCodeVec_of sg inp) \<longrightarrow>
      (let a = charCodeVec_of sg inp ! i; b = charCodeVec_of sg inp ! j
       in freq b < freq a \<or>
          (freq a = freq b \<and> char_val sg (character b) < char_val sg (character a)))) \<and>
   (\<not> sg \<or> (\<forall>c \<in> set inp. of_char c < (128::nat)) \<longrightarrow>
      (\<forall>i j. i < j \<and> j < length (charCodeVec_of sg inp) \<longrightarrow>
         (let a = charCodeVec_of sg inp ! i; b = charCodeVec_of sg inp ! j
          in freq b < freq a \<or>
             (freq a = freq b \<and> (of_char (character b) :: nat) < of_char (character a)))))"
proof -
  have s: "sorted_wrt (compareFreqChar sg) (charCodeVec_of sg inp)" by (rule charCodeVec_of_sorted)
  have "compareFreqChar sg (charCodeVec_of sg inp ! i) (charCodeVec_of sg inp ! j)"
    if "i < j" "j < length (charCodeVec_of sg inp)" for i j
    using s that by (simp add: sorted_wrt_iff_nth_less)
  then have v: "freq (charCodeVec_of sg inp ! j) < freq (charCodeVec_of sg inp ! i) \<or>
          (freq (charCodeVec_of sg inp ! i) = freq (charCodeVec_of sg inp ! j) \<and>
           char_val sg (character (charCodeVec_of sg inp ! j))
             < char_val sg (character (charCodeVec_of sg inp ! i)))"
    if "i < j" "j < length (charCodeVec_of sg inp)" for i j
    using that unfolding compareFreqChar_def by (meson)
  have "freq (charCodeVec_of sg inp ! j) < freq (charCodeVec_of sg inp ! i) \<or>
          (freq (charCodeVec_of sg inp ! i) = freq (charCodeVec_of sg inp ! j) \<and>
           (of_char (character (charCodeVec_of sg inp ! j)) :: nat)
             < of_char (character (charCodeVec_of sg inp ! i)))"
    if ij: "i < j" "j < length (charCodeVec_of sg inp)"
      and b: "\<not> sg \<or> (\<forall>c \<in> set inp. of_char c < (128::nat))" for i j
  proof -
    have "i < length (charCodeVec_of sg inp)" using ij by simp
    then have "\<not> sg \<or> of_char (character (charCodeVec_of sg inp ! i)) < (128::nat)"
      using b charCodeVec_of_in_line[of i sg inp] by blast
    then have ci: "char_val sg (character (charCodeVec_of sg inp ! i)) =
        int (of_char (character (charCodeVec_of sg inp ! i)))"
      by (rule char_val_byte)
    have "\<not> sg \<or> of_char (character (charCodeVec_of sg inp ! j)) < (128::nat)"
      using b charCodeVec_of_in_line[OF ij(2)] by blast
    then have cj: "char_val sg (character (charCodeVec_of sg inp ! j)) =
        int (of_char (character (charCodeVec_of sg inp ! j)))"
      by (rule char_val_byte)
    show ?thesis using v[OF ij] by (simp only: ci cj of_nat_less_iff)
  qed
  then show ?thesis using s v by (simp add: Let_def)
qed

text \<open>
  The line \<^verbatim>\<open>ab\<close>: both letters occur once, and b comes before a.
\<close>

theorem alphabet_sorted_witness:
  "(0::nat) < 1 \<and> 1 < length (charCodeVec_of True ''ab'') \<and>
   of_char (CHR ''a'') < (128::nat) \<and> of_char (CHR ''b'') < (128::nat) \<and>
   map character (charCodeVec_of True ''ab'') = ''ba'' \<and>
   map freq (charCodeVec_of True ''ab'') = [1, 1] \<and>
   char_val True (CHR ''a'') < char_val True (CHR ''b'') \<and>
   (of_char (CHR ''a'') :: nat) < of_char (CHR ''b'')"
proof -
  have v: "charCodeVec_of True ''ab'' =
            [\<lparr>character = CHR ''b'', freq = 1, code = ''0''\<rparr>,
             \<lparr>character = CHR ''a'', freq = 1, code = ''1''\<rparr>]"
    by code_simp
  have small: "\<forall>c \<in> set ''ab''. of_char c < (128::nat)" by simp
  have len: "(0::nat) < 1 \<and> 1 < length (charCodeVec_of True ''ab'')" by (simp add: v)
  note t = alphabet_sorted[of True "''ab''"]
  note by_char = conjunct1[OF conjunct2[OF t], rule_format, OF len]
  note by_byte = conjunct2[OF conjunct2[OF t], rule_format, OF disjI2, OF small len]
  have "char_val True (CHR ''a'') < char_val True (CHR ''b'')"
    using by_char by (simp add: v Let_def)
  moreover have "(of_char (CHR ''a'') :: nat) < of_char (CHR ''b'')"
    using by_byte by (simp add: v Let_def)
  ultimately show ?thesis using v by simp
qed

text \<open>
  C2 as stated, with ties broken by descending byte value, fails where \<^verbatim>\<open>char\<close> is
  signed: in \<open>accent_line\<close> both bytes occur once, and the alphabet has the byte 97
  before the byte 233, which compares as \<open>-23\<close>.
\<close>

theorem alphabet_sorted_signed_char:
  "map character (charCodeVec_of True accent_line) = [CHR 0x61, CHR 0xE9] \<and>
   map freq (charCodeVec_of True accent_line) = [1, 1] \<and>
   (of_char (CHR 0x61) :: nat) = 97 \<and> (of_char (CHR 0xE9) :: nat) = 233 \<and>
   char_val True (CHR 0xE9) = - 23"
  by code_simp

lemma charCodeVec_of_mem:
  assumes "e \<in> set (charCodeVec_of sg inp)"
  shows "0 < freq e" and "freq e \<le> lineSize inp"
    and "length (code e) = nat (precision_of (probability (freq e) (lineSize inp)))"
proof -
  have "freq e \<in> set (map freq (charCodeVec_of sg inp))" using assms by simp
  then have "freq e \<in> set (map freq (sorted_entries sg inp))"
    by (simp only: charCodeVec_of_def coded_eq assign_codes_freq)
  then obtain e0 where e0: "e0 \<in> set (sorted_entries sg inp)" "freq e0 = freq e" by auto
  show "0 < freq e" and "freq e \<le> lineSize inp"
    using sorted_entries_freq[OF e0(1)] e0(2) by simp_all
  show "length (code e) = nat (precision_of (probability (freq e) (lineSize inp)))"
    using assms unfolding charCodeVec_of_def coded_eq by (rule assign_codes_code_length)
qed

lemma precision_of_log:
  assumes "0 < p" "p \<le> 1"
  shows "precision_of p = \<lceil>log 2 (real_of_rat (to_float (1 / p)))\<rceil>"
proof -
  have "0 < to_float (1 / p)" using assms by (intro to_float_pos) simp
  then show ?thesis unfolding precision_of_def by (rule ceil_log2_log)
qed

text \<open>
  For every line and every entry of its alphabet, the length of the entry's code is the
  precision that the source computes, \<open>\<lceil>log\<^sub>2 r\<rceil>\<close> for the \<^verbatim>\<open>float\<close> \<open>r\<close> that it gets as
  the reciprocal of the \<^verbatim>\<open>float\<close> quotient of frequency and line length. The line
  \<^verbatim>\<open>aaaa\<close> has the one entry a with frequency 4 and the empty code, and its encoded
  message is empty.
\<close>

theorem code_length_is_precision:
  "(\<forall>e \<in> set (charCodeVec_of sg inp).
      int (length (code e)) = precision_of (probability (freq e) (lineSize inp)) \<and>
      precision_of (probability (freq e) (lineSize inp)) =
        \<lceil>log 2 (real_of_rat (to_float (1 / probability (freq e) (lineSize inp))))\<rceil>)
   \<and> shannonCode sg ''aaaa'' = ([\<lparr>character = CHR ''a'', freq = 4, code = ''''\<rparr>], '''')"
proof -
  have ex: "shannonCode sg ''aaaa'' = ([\<lparr>character = CHR ''a'', freq = 4, code = ''''\<rparr>], '''')"
    by (induct sg) code_simp+
  have "int (length (code e)) = precision_of (probability (freq e) (lineSize inp)) \<and>
        precision_of (probability (freq e) (lineSize inp)) =
          \<lceil>log 2 (real_of_rat (to_float (1 / probability (freq e) (lineSize inp))))\<rceil>"
    if e: "e \<in> set (charCodeVec_of sg inp)" for e
  proof -
    note m = charCodeVec_of_mem[OF e]
    note pb = probability_bounds[OF m(1,2)]
    have "0 \<le> precision_of (probability (freq e) (lineSize inp))"
      using pb by (rule precision_of_nonneg)
    then have "int (length (code e)) = precision_of (probability (freq e) (lineSize inp))"
      using m(3) by simp
    then show ?thesis using precision_of_log[OF pb] by simp
  qed
  then show ?thesis using ex by blast
qed

text \<open>
  The entry of b in the alphabet of \<^verbatim>\<open>aab\<close>.
\<close>

theorem code_length_is_precision_witness:
  "\<lparr>character = CHR ''b'', freq = 1, code = ''10''\<rparr> \<in> set (charCodeVec_of True ''aab'') \<and>
   int (length ''10'') = precision_of (probability 1 (lineSize ''aab'')) \<and>
   precision_of (probability 1 (lineSize ''aab'')) =
     \<lceil>log 2 (real_of_rat (to_float (1 / probability 1 (lineSize ''aab''))))\<rceil>"
proof -
  have v: "\<lparr>character = CHR ''b'', freq = 1, code = ''10''\<rparr> \<in> set (charCodeVec_of True ''aab'')"
    by code_simp
  from code_length_is_precision[of True "''aab''"] v
  have "int (length (code \<lparr>character = CHR ''b'', freq = 1, code = ''10''\<rparr>)) =
          precision_of (probability (freq \<lparr>character = CHR ''b'', freq = 1, code = ''10''\<rparr>) (lineSize ''aab'')) \<and>
        precision_of (probability (freq \<lparr>character = CHR ''b'', freq = 1, code = ''10''\<rparr>) (lineSize ''aab'')) =
          \<lceil>log 2 (real_of_rat (to_float (1 / probability (freq \<lparr>character = CHR ''b'', freq = 1, code = ''10''\<rparr>) (lineSize ''aab''))))\<rceil>"
    by blast
  then show ?thesis using v by simp
qed

lemma charCodeMap_of_dom: "dom (charCodeMap_of sg inp) = set (scanned inp)"
  by (simp add: charCodeMap_of_def coded_eq assign_codes_dom sorted_entries_characters)

lemma encode_checked_total:
  "set cs \<subseteq> dom m \<Longrightarrow> encode_checked m cs = Some (concat (map (code_at m) cs))"
  by (induction cs) (auto simp: code_at_def)

text \<open>
  C9, as amended. The keys of \<^verbatim>\<open>charCodeMap\<close> are exactly the characters the loops
  visit, so for every line the concatenation with a failing lookup returns a result, the
  one the source computes; a line shorter than \<open>2\<^sup>3\<^sup>1\<close> bytes is visited whole, and
  each of its characters has an entry.
\<close>

theorem lookup_never_misses:
  "dom (charCodeMap_of sg inp) = set (scanned inp) \<and>
   encode_checked (charCodeMap_of sg inp) (scanned inp) = Some (encodedLine_of sg inp) \<and>
   (length inp < 2 ^ 31 \<longrightarrow> (\<forall>c \<in> set inp. charCodeMap_of sg inp c \<noteq> None))"
proof -
  have d: "dom (charCodeMap_of sg inp) = set (scanned inp)" by (rule charCodeMap_of_dom)
  have "encode_checked (charCodeMap_of sg inp) (scanned inp) = Some (encodedLine_of sg inp)"
    unfolding encodedLine_of_def by (rule encode_checked_total) (simp add: d)
  moreover have "\<forall>c \<in> set inp. charCodeMap_of sg inp c \<noteq> None" if "length inp < 2 ^ 31"
    using d scanned_short[OF that] by auto
  ultimately show ?thesis using d by blast
qed

text \<open>
  The character b of \<^verbatim>\<open>aab\<close>.
\<close>

theorem lookup_never_misses_witness:
  "length ''aab'' < (2::nat) ^ 31 \<and> CHR ''b'' \<in> set ''aab'' \<and>
   charCodeMap_of True ''aab'' CHR ''b'' \<noteq> None"
proof -
  have l: "length ''aab'' < (2::nat) ^ 31" by simp
  have "\<forall>c \<in> set ''aab''. charCodeMap_of True ''aab'' c \<noteq> None"
    using lookup_never_misses[of True "''aab''"] l by blast
  then show ?thesis using l by simp
qed

lemma int_of_size_wraps: "int_of_size 2147483648 = - 2147483648"
  by (simp add: int_of_size_def)

text \<open>
  C9 as stated fails on a line of \<open>2\<^sup>3\<^sup>1\<close> bytes: \<^verbatim>\<open>int lineSize = line.length()\<close> is
  negative, no loop visits a character, and the letter a of the line has no entry.
\<close>

theorem lookup_misses_long_line:
  "length long_line = 2147483648 \<and> CHR ''a'' \<in> set long_line \<and>
   lineSize long_line = - 2147483648 \<and> scanned long_line = [] \<and>
   charCodeMap_of True long_line (CHR ''a'') = None \<and>
   charCodeMap_of False long_line (CHR ''a'') = None"
proof -
  have l: "length long_line = 2147483648" by (simp add: long_line_def)
  have m: "CHR ''a'' \<in> set long_line" by (simp add: long_line_def)
  have n: "lineSize long_line = - 2147483648"
    unfolding lineSize_def l by (rule int_of_size_wraps)
  have s: "scanned long_line = []" by (simp add: scanned_def n)
  have "CHR ''a'' \<notin> dom (charCodeMap_of sg long_line)" for sg
    by (simp only: charCodeMap_of_dom s) simp
  then have "charCodeMap_of sg long_line (CHR ''a'') = None" for sg
    by blast
  then show ?thesis using l m n s by simp
qed

subsection \<open>The message record, negative precisions, the request buffer\<close>

text \<open>
  C10. \<^verbatim>\<open>shannonCode\<close> on an \<^verbatim>\<open>EncodedMsg\<close> leaves the \<^verbatim>\<open>line\<close> field as it was, in the
  server's version and in the thread function of \<^verbatim>\<open>src/multiThreading.cpp\<close>: the two
  fields it writes are \<^verbatim>\<open>charCodeVec\<close> and \<^verbatim>\<open>encodedLine\<close>.
\<close>

theorem shannonCode_keeps_line:
  "line (shannonCode_msg sg msg) = line msg \<and> line (shannonCode_thread sg msg) = line msg"
  by (simp add: shannonCode_msg_def shannonCode_thread_def Let_def split: prod.splits)


text \<open>The precision the coding loop computes is never negative.\<close>

lemma precision_never_negative:
  "e \<in> set (charCodeVec_of sg inp) \<Longrightarrow> 0 \<le> precision_of (probability (freq e) (lineSize inp))"
  using charCodeVec_of_mem(1,2)[of e sg inp] probability_bounds[of "freq e" "lineSize inp"]
  by (intro precision_of_nonneg) auto




text \<open>
  C6. \<^verbatim>\<open>src/client.cpp\<close> given a line of 32 bytes: \<^verbatim>\<open>strcpy\<close> writes 33 bytes into the
  32-byte array.
\<close>

theorem request_of_overflow:
  "request_of (replicate 32 NUL) (replicate 32 (CHR ''a'')) = Inl Buffer_overflow"
  by (simp add: request_of_def c_string_def NUL_def)

lemma c_string_no_NUL: "NUL \<notin> set (c_string bytes)"
  unfolding c_string_def by (induction bytes) auto

lemma c_string_stop: "NUL \<notin> set s \<Longrightarrow> c_string (s @ NUL # rest) = s"
  unfolding c_string_def by (induction s) auto

lemma c_string_id: "NUL \<notin> set s \<Longrightarrow> c_string s = s"
  unfolding c_string_def by (induction s) auto

text \<open>\<^verbatim>\<open>sendMessage\<close> of \<^verbatim>\<open>src/src/network/client.cpp\<close> does truncate.\<close>

lemma sendMessage_truncates:
  "length (sendMessage message) = 32 \<and> last (sendMessage message) = NUL \<and>
   c_string (sendMessage message) = take 31 (c_string message)"
proof -
  define s where "s = take 31 (c_string message)"
  have nn: "NUL \<notin> set s"
    unfolding s_def using c_string_no_NUL[of message] by (auto dest: in_set_takeD)
  have len: "length s \<le> 31" by (simp add: s_def)
  have sm: "sendMessage message = s @ NUL # replicate (31 - length s) NUL"
    by (simp add: sendMessage_def strncpy_bytes_def s_def Let_def replicate_append_same)
  have "c_string (s @ NUL # replicate (31 - length s) NUL) = s"
    using nn by (rule c_string_stop)
  moreover have "length (sendMessage message) = 32" using len by (simp add: sm)
  moreover have "last (sendMessage message) = NUL"
    by (simp add: sendMessage_def)
  ultimately show ?thesis by (simp add: sm s_def)
qed

lemma request_of_short:
  assumes "length (c_string inp) \<le> 31" "length stack = 32"
  shows "\<exists>r. request_of stack inp = Inr r \<and> length r = 32 \<and> c_string r = c_string inp"
  using assms c_string_stop[OF c_string_no_NUL, of inp]
  by (simp add: request_of_def Let_def)

subsection \<open>A long line\<close>

lemma fold_map_incr_replicate:
  "fold (map_incr sg) (replicate n c) ((c, k) # m) = (c, k + int n) # m"
  by (induction n arbitrary: k) (simp_all del: fold_replicate)

lemma charCountMap_run:
  assumes "length (replicate (Suc n) c @ [d]) < 2 ^ 31" "char_val sg c < char_val sg d"
  shows "charCountMap sg (replicate (Suc n) c @ [d]) = [(c, 1 + int n), (d, 1)]"
proof -
  have ne: "d \<noteq> c" using assms(2) by auto
  have "fold (map_incr sg) (replicate (Suc n) c @ [d]) [] =
          map_incr sg d (fold (map_incr sg) (replicate n c) [(c, 1)])"
    by (simp del: fold_replicate)
  also have "\<dots> = map_incr sg d [(c, 1 + int n)]"
    by (simp only: fold_map_incr_replicate)
  also have "\<dots> = [(c, 1 + int n), (d, 1)]"
    using ne assms(2) by simp
  finally have "fold (map_incr sg) (replicate (Suc n) c @ [d]) [] = [(c, 1 + int n), (d, 1)]" .
  then show ?thesis using scanned_short[OF assms(1)] by (simp only: charCountMap_def)
qed

lemma big_probabilities:
  "probability 16777216 16777217 = 1"
  "probability 1 16777217 = 1 / 16777216"
  "precision_of 1 = 0"
  "precision_of (1 / 16777216) = 24"
  "to_float (0 + 1) = 1"
  "decimalToBinary 0 0 = []"
  "decimalToBinary 1 24 = ''111111111111111111111111''"
  by code_simp+

lemma a_less_b: "char_val sg (CHR ''a'') < char_val sg (CHR ''b'')"
  by (simp add: char_val_def)

lemma big_line_alphabet: "charCodeVec_of sg big_line = big_alphabet"
proof -
  define inp where "inp = replicate (Suc 16777215) (CHR ''a'') @ ''b''"
  have len: "length inp < 2 ^ 31" by (simp add: inp_def)
  have n: "lineSize inp = 16777217" using lineSize_short[OF len] by (simp add: inp_def)
  have cm: "charCountMap sg inp = [(CHR ''a'', 16777216), (CHR ''b'', 1)]"
    unfolding inp_def using charCountMap_run[OF len[unfolded inp_def] a_less_b, of sg] by simp
  have se: "sorted_entries sg inp =
      [\<lparr>character = CHR ''a'', freq = 16777216, code = []\<rparr>,
       \<lparr>character = CHR ''b'', freq = 1, code = []\<rparr>]"
    by (simp add: sorted_entries_def cm entries_of_def sort_by_Cons compareFreqChar_def)
  have "charCodeVec_of sg inp = big_alphabet"
    by (simp add: charCodeVec_of_def coded_eq se n assign_codes_Cons Let_def big_probabilities
        big_alphabet_def)
  moreover have "inp = big_line"
    unfolding inp_def big_line_def by simp
  ultimately show ?thesis by simp
qed

text \<open>
  On a line of at most \<open>2\<^sup>2\<^sup>4\<close> bytes every code has the length
  \<open>\<lceil>log\<^sub>2 (1 / probability)\<rceil>\<close> for the exact probability, frequency by line length.
\<close>

lemma code_length_exact_short:
  assumes e: "e \<in> set (charCodeVec_of sg inp)" and len: "length inp \<le> 16777216"
  shows "int (length (code e)) = \<lceil>log 2 (real (length inp) / real_of_int (freq e))\<rceil>"
proof -
  have "length inp < 2 ^ 31" using len by simp
  then have n: "lineSize inp = int (length inp)" by (rule lineSize_short)
  note m = charCodeVec_of_mem[OF e]
  have f: "0 < freq e" "freq e \<le> int (length inp)" using m(1,2) by (simp_all only: n)
  have n24: "int (length inp) \<le> 16777216" using len by simp
  have ex: "precision_of (probability (freq e) (int (length inp))) =
      ceil_log2 (of_int (int (length inp)) / of_int (freq e))"
    using f n24 by (rule precision_exact)
  have "0 < int (length inp)" using f by linarith
  then have l0: "0 < length inp" by simp
  have pos: "(0::rat) < of_int (int (length inp)) / of_int (freq e)" using f(1) l0 by simp
  have "0 \<le> precision_of (probability (freq e) (lineSize inp))"
    using e by (rule precision_never_negative)
  then have "int (length (code e)) = precision_of (probability (freq e) (lineSize inp))"
    using m(3) by simp
  also have "\<dots> = \<lceil>log 2 (real_of_rat (of_int (int (length inp)) / of_int (freq e)))\<rceil>"
    by (simp only: n ex ceil_log2_log[OF pos])
  also have "real_of_rat (of_int (int (length inp)) / of_int (freq e)) =
      real (length inp) / real_of_int (freq e)"
    by (simp add: of_rat_divide)
  finally show ?thesis .
qed

lemma ceiling_log2_big: "\<lceil>log 2 (1 / (16777216 / 16777217))\<rceil> = (1::int)"
proof -
  have "(0::real) < log 2 (16777217 / 16777216)" by simp
  moreover have "log 2 (16777217 / 16777216) \<le> (1::real)"
    using log_le_one_cancel_iff[of 2 "16777217 / 16777216"] by simp
  ultimately have "\<lceil>log 2 (16777217 / 16777216 :: real)\<rceil> = 1" by linarith
  then show ?thesis by simp
qed

text \<open>
  C3. In the line of 16777217 bytes the letter a occurs 16777216 times, so
  \<open>\<lceil>log\<^sub>2 (1 / probability)\<rceil> = \<lceil>log\<^sub>2 (16777217 / 16777216)\<rceil> = 1\<close>, and the code that the
  encoder gives it has length 0: the \<^verbatim>\<open>float\<close> quotient of frequency and line length is
  1. The line \<^verbatim>\<open>aaaa\<close> has the one entry a with frequency 4 and the empty code, and its
  encoded message is empty.
\<close>

theorem code_length_not_exact:
  "length big_line = 16777217 \<and>
   charCodeVec_of sg big_line ! 0 = \<lparr>character = CHR ''a'', freq = 16777216, code = []\<rparr> \<and>
   probability 16777216 (lineSize big_line) = 1 \<and>
   length (code (charCodeVec_of sg big_line ! 0)) = 0 \<and>
   \<lceil>log 2 (1 / (16777216 / 16777217))\<rceil> = (1::int) \<and>
   shannonCode sg ''aaaa'' = ([\<lparr>character = CHR ''a'', freq = 4, code = []\<rparr>], [])"
proof -
  have l: "length big_line = 16777217" by (simp add: big_line_def)
  then have "length big_line < 2 ^ 31" by simp
  then have n: "lineSize big_line = 16777217" using l by (simp add: lineSize_short)
  have ex: "shannonCode sg ''aaaa'' = ([\<lparr>character = CHR ''a'', freq = 4, code = []\<rparr>], [])"
    by (induct sg) code_simp+
  have a: "charCodeVec_of sg big_line ! 0 = \<lparr>character = CHR ''a'', freq = 16777216, code = []\<rparr>"
    by (simp add: big_line_alphabet big_alphabet_def)
  show ?thesis
    using l ex ceiling_log2_big by (simp add: a n big_probabilities)
qed

lemma big_line_not_prefix_free: "\<not> prefix_free (charCodeVec_of sg big_line)"
proof
  assume "prefix_free (charCodeVec_of sg big_line)"
  then have pf: "prefix_free big_alphabet" by (simp only: big_line_alphabet)
  have "(0::nat) < length big_alphabet" "(1::nat) < length big_alphabet" "(0::nat) \<noteq> 1"
    by (simp_all add: big_alphabet_def)
  with pf have "\<not> prefix (code (big_alphabet ! 0)) (code (big_alphabet ! 1))"
    unfolding prefix_free_def by blast
  then show False by (simp add: big_alphabet_def)
qed

text \<open>
  C5. A line of 16777216 times a and one b, 16777217 bytes. \<^verbatim>\<open>lineSize\<close> does not fit
  the 24 bits of a \<^verbatim>\<open>float\<close> and converts to 16777216.0, the probability of a rounds to
  1.0 and its precision is 0: a gets the empty code, a prefix of the code of b.
\<close>

theorem prefix_free_fails:
  "CHR ''a'' \<in> set big_line \<and> CHR ''b'' \<in> set big_line \<and> length big_line = 16777217 \<and>
   charCodeVec_of sg big_line =
     [\<lparr>character = CHR ''a'', freq = 16777216, code = []\<rparr>,
      \<lparr>character = CHR ''b'', freq = 1, code = ''111111111111111111111111''\<rparr>] \<and>
   prefix (code (charCodeVec_of sg big_line ! 0)) (code (charCodeVec_of sg big_line ! 1))"
proof -
  have "CHR ''a'' \<in> set big_line \<and> CHR ''b'' \<in> set big_line \<and> length big_line = 16777217"
    by (simp add: big_line_def)
  then show ?thesis by (simp add: big_line_alphabet) (simp add: big_alphabet_def)
qed

subsection \<open>Integers on the wire\<close>

lemma le_bytes_value:
  fixes u :: int
  assumes "0 \<le> u" "u < 4294967296"
  shows "u mod 256 + 256 * (u div 256 mod 256) + 65536 * (u div 65536 mod 256)
           + 16777216 * (u div 16777216 mod 256) = u"
proof -
  define q1 where "q1 = u div 256"
  define q2 where "q2 = u div 65536"
  define q3 where "q3 = u div 16777216"
  define r0 where "r0 = u mod 256"
  define r1 where "r1 = q1 mod 256"
  define r2 where "r2 = q2 mod 256"
  have a: "u = 256 * q1 + r0" by (simp add: q1_def r0_def)
  have b: "q1 = 256 * q2 + r1"
  proof -
    have "q1 div 256 = q2" by (simp add: q1_def q2_def zdiv_zmult2_eq)
    then show ?thesis using div_mult_mod_eq[of q1 256] by (simp add: r1_def)
  qed
  have c: "q2 = 256 * q3 + r2"
  proof -
    have "q2 div 256 = q3" by (simp add: q2_def q3_def zdiv_zmult2_eq)
    then show ?thesis using div_mult_mod_eq[of q2 256] by (simp add: r2_def)
  qed
  have "q3 < 256" "0 \<le> q3" using assms unfolding q3_def by linarith+
  then have d: "q3 mod 256 = q3" by simp
  have "r0 + 256 * r1 + 65536 * r2 + 16777216 * q3 = u"
    using a b c by linarith
  then have "u mod 256 + 256 * (u div 256 mod 256) + 65536 * (u div 65536 mod 256)
           + 16777216 * (u div 16777216) = u"
    by (simp only: r0_def r1_def r2_def q1_def q2_def q3_def)
  moreover have "u div 16777216 mod 256 = u div 16777216" using d by (simp only: q3_def)
  ultimately show ?thesis by (simp only:)
qed


lemma int32_wrap:
  fixes x :: int
  assumes "- 2147483648 \<le> x" "x < 2147483648"
  shows "(if 2147483648 \<le> x mod 4294967296 then x mod 4294967296 - 4294967296 else x mod 4294967296) = x"
proof (cases "0 \<le> x")
  case True
  then have "x mod 4294967296 = x" using assms by (intro mod_pos_pos_trivial) auto
  then show ?thesis using assms by (simp only:) simp
next
  case False
  have "(x + 4294967296) mod 4294967296 = x + 4294967296"
    using False assms by (intro mod_pos_pos_trivial) auto
  then have "x mod 4294967296 = x + 4294967296" by (simp only: mod_add_self2)
  then show ?thesis using assms by (simp only:) simp
qed

lemma of_char_char_of_int: "(of_char (char_of (k::int)) :: int) = k mod 256"
  by (rule of_char_of)

lemma bytes_int_le:
  fixes u :: int
  assumes "0 \<le> u" "u < 4294967296"
  shows "bytes_int False [char_of u, char_of (u div 256), char_of (u div 65536), char_of (u div 16777216)]
          = (if 2147483648 \<le> u then u - 4294967296 else u)"
  unfolding bytes_int_def
  by (simp only: if_False list.case Let_def of_char_char_of_int le_bytes_value[OF assms]) simp

lemma bytes_int_be:
  fixes u :: int
  assumes "0 \<le> u" "u < 4294967296"
  shows "bytes_int True (rev [char_of u, char_of (u div 256), char_of (u div 65536), char_of (u div 16777216)])
          = (if 2147483648 \<le> u then u - 4294967296 else u)"
  unfolding bytes_int_def
  by (simp only: if_True rev_rev_ident list.case Let_def of_char_char_of_int le_bytes_value[OF assms]) simp

lemma bytes_int_int_bytes:
  assumes "- 2147483648 \<le> x" "x < 2147483648"
  shows "bytes_int be (int_bytes be x) = x"
proof -
  define u where "u = x mod 4294967296"
  have u: "0 \<le> u" "u < 4294967296" by (simp_all add: u_def)
  have s: "(if 2147483648 \<le> u then u - 4294967296 else u) = x"
    unfolding u_def using assms by (rule int32_wrap)
  have ib: "int_bytes be x = (if be then rev [char_of u, char_of (u div 256), char_of (u div 65536), char_of (u div 16777216)]
       else [char_of u, char_of (u div 256), char_of (u div 65536), char_of (u div 16777216)])"
    unfolding int_bytes_def u_def by (simp only: Let_def) simp
  show ?thesis
  proof (cases be)
    case True
    then show ?thesis using bytes_int_be[OF u] s ib by (simp only: if_True)
  next
    case False
    then show ?thesis using bytes_int_le[OF u] s ib by (simp only: if_False)
  qed
qed

subsection \<open>Serialising and parsing\<close>

lemma bindf_Inr [simp]: "bindf (Inr v) k = k v"
  by (simp add: bindf_def)

lemma bindf_Inl [simp]: "bindf (Inl e) k = Inl e"
  by (simp add: bindf_def)

lemma length_int_bytes [simp]: "length (int_bytes be x) = 4"
  by (simp add: int_bytes_def Let_def)

lemma int_of_size_small: "n < 2 ^ 31 \<Longrightarrow> int_of_size n = int n"
  by (simp add: int_of_size_def signed_of_nat signed_take_bit_int_eq_self)

lemma read_int_int_bytes:
  assumes "- (2 ^ 31) \<le> x" "x < 2 ^ 31"
  shows "read_int be (int_bytes be x @ rest) = Inr (x, rest)"
proof -
  have "bytes_int be (int_bytes be x) = x" using assms by (intro bytes_int_int_bytes) auto
  then show ?thesis by (simp add: read_int_def read_bytes_def)
qed

lemma write_counted_string [simp]:
  "write_counted (int (length s)) (s @ [NUL]) = Inr s"
  by (simp add: write_counted_def)

lemma read_counted_string:
  "NUL \<notin> set s \<Longrightarrow> read_counted (int (length s)) (s @ rest) = Inr (s, rest)"
  by (simp add: read_counted_def read_bytes_def c_string_stop)

lemma entry_roundtrip:
  assumes "wire_ok e"
  shows "\<exists>b. entry_bytes be e = Inr b \<and>
           (\<forall>k rest. read_entries be (Suc k) (b @ rest) =
              bindf (read_entries be k rest) (\<lambda>(es, s5). Inr (e # es, s5)))"
proof -
  from assms have f: "- (2 ^ 31) \<le> freq e" "freq e < 2 ^ 31"
    and l: "length (code e) < 2 ^ 31" and n: "NUL \<notin> set (code e)"
    by (simp_all add: wire_ok_def)
  define b where "b = [character e] @ int_bytes be (freq e)
                        @ int_bytes be (int (length (code e))) @ code e"
  have eb: "entry_bytes be e = Inr b"
    using l by (simp add: entry_bytes_def Let_def b_def int_of_size_small)
  have li: "- (2 ^ 31) \<le> int (length (code e))" "int (length (code e)) < 2 ^ 31"
    using l by simp_all
  have rec: "\<lparr>character = character e, freq = freq e, code = code e\<rparr> = e"
    by (cases e) simp
  have "read_entries be (Suc k) (b @ rest) =
          bindf (read_entries be k rest) (\<lambda>(es, s5). Inr (e # es, s5))" for k rest
    by (simp add: rec b_def read_char_def read_int_int_bytes[OF f] read_int_int_bytes[OF li]
        read_counted_string[OF n])
  then show ?thesis using eb by blast
qed

lemma entries_roundtrip:
  assumes "\<forall>e \<in> set es. wire_ok e"
  shows "\<exists>bs. entries_bytes be es = Inr bs \<and>
           (\<forall>rest. read_entries be (length es) (bs @ rest) = Inr (es, rest))"
  using assms
proof (induction es)
  case Nil
  then show ?case by simp
next
  case (Cons e es)
  obtain b where b: "entry_bytes be e = Inr b"
    "\<And>k rest. read_entries be (Suc k) (b @ rest) =
        bindf (read_entries be k rest) (\<lambda>(es, s5). Inr (e # es, s5))"
    using entry_roundtrip[of e be] Cons.prems by auto
  obtain bs where bs: "entries_bytes be es = Inr bs"
    "\<And>rest. read_entries be (length es) (bs @ rest) = Inr (es, rest)"
    using Cons by auto
  have "entries_bytes be (e # es) = Inr (b @ bs)" by (simp add: b(1) bs(1))
  moreover have "read_entries be (length (e # es)) ((b @ bs) @ rest) = Inr (e # es, rest)" for rest
    using b(2)[of "length es" "bs @ rest"] bs(2)[of rest] by simp
  ultimately show ?case by blast
qed

lemma response_roundtrip:
  assumes nul: "NUL \<in> set message"
    and msg: "msg = shannonCode_msg sg \<lparr>line = c_string message, charCodeVec = [], encodedLine = []\<rparr>"
    and ok: "\<forall>e \<in> set (charCodeVec msg). wire_ok e"
    and lv: "length (charCodeVec msg) < 2 ^ 31"
    and le: "length (encodedLine msg) < 2 ^ 31"
    and ne: "NUL \<notin> set (encodedLine msg)"
  shows "bindf (handle_request sg be message) (receive be) = Inr (charCodeVec msg, encodedLine msg)"
proof -
  obtain bs where bs: "entries_bytes be (charCodeVec msg) = Inr bs"
    "\<And>rest. read_entries be (length (charCodeVec msg)) (bs @ rest) = Inr (charCodeVec msg, rest)"
    using entries_roundtrip[OF ok, of be] by auto
  have cs: "c_string (encodedLine msg) = encodedLine msg" using ne by (rule c_string_id)
  have hr: "handle_request sg be message =
      Inr (int_bytes be (int (length (charCodeVec msg))) @ bs
           @ int_bytes be (int (length (encodedLine msg))) @ encodedLine msg)"
    using nul bs(1) lv le
    by (simp add: handle_request_def msg[symmetric] Let_def cs int_of_size_small)
  have a: "- (2 ^ 31) \<le> int (length (charCodeVec msg))" "int (length (charCodeVec msg)) < 2 ^ 31"
    using lv by simp_all
  have b: "- (2 ^ 31) \<le> int (length (encodedLine msg))" "int (length (encodedLine msg)) < 2 ^ 31"
    using le by simp_all
  have "read_counted (int (length (encodedLine msg))) (encodedLine msg) = Inr (encodedLine msg, [])"
    using read_counted_string[OF ne, of "[]"] by simp
  then show ?thesis
    by (simp add: hr receive_def read_int_int_bytes[OF a] read_int_int_bytes[OF b] bs(2))
qed

subsection \<open>The round trip\<close>

lemma shannonCode_msg_fresh:
  assumes "length inp < 2 ^ 31"
  shows "shannonCode_msg sg \<lparr>line = inp, charCodeVec = [], encodedLine = []\<rparr> =
           \<lparr>line = inp, charCodeVec = charCodeVec_of sg inp, encodedLine = encodedLine_of sg inp\<rparr>"
proof -
  have c: "fold (map_incr sg) inp [] = charCountMap sg inp"
    by (simp add: charCountMap_def scanned_short[OF assms])
  show ?thesis
    by (simp add: shannonCode_msg_def c Let_def case_prod_beta sorted_entries_def[symmetric]
        coded_eq[symmetric] charCodeVec_of_def encodedLine_of_def charCodeMap_of_def)
qed

lemma probability_ge:
  assumes "0 < f" "0 < n" "of_int n \<le> (2::rat) powi k"
  shows "2 powi (- k) \<le> probability f n"
proof -
  have f1: "1 \<le> to_float (of_int f)"
    using to_float_mono[of 1 "of_int f"] assms(1) by simp
  have n0: "0 < to_float (of_int n)" using assms(2) by (simp add: to_float_pos)
  have nk: "to_float (of_int n) \<le> 2 powi k"
    using to_float_mono[of "of_int n" "2 powi k"] assms(2,3) by simp
  have "(2::rat) powi (- k) = 1 / 2 powi k" by (simp add: power_int_minus field_simps)
  also have "\<dots> \<le> to_float (of_int f) / to_float (of_int n)"
    using f1 n0 nk by (intro frac_le) auto
  finally have q: "2 powi (- k) \<le> to_float (of_int f) / to_float (of_int n)" .
  have "to_float (2 powi (- k)) \<le> to_float (to_float (of_int f) / to_float (of_int n))"
    using q by (intro to_float_mono) auto
  then show ?thesis by (simp add: probability_def)
qed

lemma precision_of_le:
  assumes "2 powi (- k) \<le> p"
  shows "precision_of p \<le> k"
proof -
  have p0: "0 < p" using assms powi_pos2[of "- k"] by linarith
  have "1 / p \<le> 1 / 2 powi (- k)" using assms p0 by (intro divide_left_mono) auto
  also have "\<dots> = 2 powi k" by (simp add: power_int_minus field_simps)
  finally have "to_float (1 / p) \<le> to_float (2 powi k)"
    using p0 by (intro to_float_mono) auto
  then have "to_float (1 / p) \<le> 2 powi k" by simp
  moreover have "0 < to_float (1 / p)" using p0 by (intro to_float_pos) simp
  ultimately show ?thesis unfolding precision_of_def by (simp add: ceil_log2_le_iff)
qed

lemma short_line_code_length:
  assumes "length inp \<le> 32" "e \<in> set (charCodeVec_of sg inp)"
  shows "length (code e) \<le> 5"
proof -
  note m = charCodeVec_of_mem[OF assms(2)]
  have ls: "lineSize inp = int (length inp)" using assms(1) by (intro lineSize_short) simp
  have "of_int (lineSize inp) \<le> (2::rat) powi 5"
  proof -
    have "lineSize inp \<le> 32" using ls assms(1) by simp
    then have "(of_int (lineSize inp) :: rat) \<le> of_int 32" by (simp only: of_int_le_iff)
    then show ?thesis by simp
  qed
  moreover have "0 < lineSize inp" using m(1,2) by linarith
  ultimately have "2 powi (- 5) \<le> probability (freq e) (lineSize inp)"
    using m(1) by (intro probability_ge) auto
  then have "precision_of (probability (freq e) (lineSize inp)) \<le> 5" by (rule precision_of_le)
  then show ?thesis using m(3) by simp
qed

lemma charCodeVec_of_bits:
  "e \<in> set (charCodeVec_of sg inp) \<Longrightarrow> set (code e) \<subseteq> {CHR ''0'', CHR ''1''}"
  unfolding charCodeVec_of_def coded_eq by (rule assign_codes_code_bits)

lemma bits_no_NUL: "set s \<subseteq> {CHR ''0'', CHR ''1''} \<Longrightarrow> NUL \<notin> set s"
  by (auto simp: NUL_def)

lemma short_line_wire_ok:
  assumes "length inp \<le> 32" "e \<in> set (charCodeVec_of sg inp)"
  shows "wire_ok e"
proof -
  note m = charCodeVec_of_mem[OF assms(2)]
  have "lineSize inp \<le> 32" using lineSize_le[of inp] assms(1) by simp
  then have "freq e < 2 ^ 31" "- (2 ^ 31) \<le> freq e" using m(1,2) by simp_all
  moreover have "length (code e) < 2 ^ 31" using short_line_code_length[OF assms] by simp
  moreover have "NUL \<notin> set (code e)" using charCodeVec_of_bits[OF assms(2)] by (rule bits_no_NUL)
  ultimately show ?thesis by (simp add: wire_ok_def)
qed

lemma length_charCodeVec_of: "length (charCodeVec_of sg inp) \<le> length (scanned inp)"
proof -
  have "length (charCodeVec_of sg inp) = length (map fst (charCountMap sg inp))"
    by (simp add: charCodeVec_of_def coded_eq sorted_entries_def entries_of_def)
  also have "\<dots> = card (set (map fst (charCountMap sg inp)))"
    using key_sorted_distinct[OF charCountMap_sorted, of sg inp] by (simp only: distinct_card)
  also have "\<dots> = card (set (scanned inp))"
    using charCountMap_keys[of sg inp] by (simp only: set_map)
  also have "\<dots> \<le> length (scanned inp)" by (rule card_length)
  finally show ?thesis .
qed

lemma assign_codes_ran:
  "snd (assign_codes n cum m es) c = Some s \<Longrightarrow>
   m c = Some s \<or> (\<exists>e \<in> set (fst (assign_codes n cum m es)). code e = s)"
proof (induction es arbitrary: cum m)
  case Nil
  then show ?case by simp
next
  case (Cons a es)
  define sc where "sc = decimalToBinary cum (precision_of (probability (freq a) n))"
  define r where "r = assign_codes n (to_float (cum + probability (freq a) n)) (m(character a \<mapsto> sc)) es"
  have eq: "assign_codes n cum m (a # es) = (a\<lparr>code := sc\<rparr> # fst r, snd r)"
    by (simp add: assign_codes_Cons Let_def sc_def r_def)
  from Cons.prems have "snd r c = Some s" by (simp add: eq)
  then have "(m(character a \<mapsto> sc)) c = Some s \<or> (\<exists>e \<in> set (fst r). code e = s)"
    unfolding r_def by (rule Cons.IH)
  then show ?case by (auto simp: eq split: if_splits)
qed

lemma code_at_cases:
  "code_at (charCodeMap_of sg inp) c = [] \<or>
   (\<exists>e \<in> set (charCodeVec_of sg inp). code_at (charCodeMap_of sg inp) c = code e)"
proof (cases "charCodeMap_of sg inp c")
  case None
  then show ?thesis by (simp add: code_at_def)
next
  case (Some s)
  then have "\<exists>e \<in> set (charCodeVec_of sg inp). code e = s"
    using assign_codes_ran[of "lineSize inp" 0 Map.empty "sorted_entries sg inp" c s]
    by (simp add: charCodeMap_of_def charCodeVec_of_def coded_eq)
  then show ?thesis using Some by (auto simp: code_at_def)
qed

lemma length_concat_le:
  "\<forall>xs \<in> set xss. length xs \<le> b \<Longrightarrow> length (concat xss) \<le> length xss * b"
  by (induction xss) auto

lemma short_line_encoded:
  assumes "length inp \<le> 32"
  shows "length (encodedLine_of sg inp) \<le> 160" and "NUL \<notin> set (encodedLine_of sg inp)"
proof -
  have each: "length (code_at (charCodeMap_of sg inp) c) \<le> 5 \<and>
              NUL \<notin> set (code_at (charCodeMap_of sg inp) c)" for c
    using code_at_cases[of sg inp c] short_line_code_length[OF assms, of _ sg]
      charCodeVec_of_bits[of _ sg inp] bits_no_NUL by fastforce
  have "length (encodedLine_of sg inp) \<le> length (map (code_at (charCodeMap_of sg inp)) (scanned inp)) * 5"
    unfolding encodedLine_of_def using each by (intro length_concat_le) auto
  also have "\<dots> \<le> 32 * 5" using assms by (simp add: scanned_def)
  finally show "length (encodedLine_of sg inp) \<le> 160" by simp
  show "NUL \<notin> set (encodedLine_of sg inp)"
    unfolding encodedLine_of_def using each by auto
qed

lemma roundtrip_short:
  assumes "length inp \<le> 31" "NUL \<notin> set inp"
  shows "communicateWithServer sg be stack inp = Inr (shannonCode sg inp)"
proof -
  define message where "message = inp @ [NUL] @ drop (length inp + 1) (take 32 stack)"
  have ci: "c_string inp = inp" using assms(2) by (rule c_string_id)
  have rq: "request_of stack inp = Inr message"
    using assms(1) by (simp add: request_of_def ci message_def)
  have nul: "NUL \<in> set message" by (simp add: message_def)
  have cm: "c_string message = inp"
    unfolding message_def using c_string_stop[OF assms(2)] by simp
  define msg where "msg = shannonCode_msg sg \<lparr>line = c_string message, charCodeVec = [], encodedLine = []\<rparr>"
  have l31: "length inp < 2 ^ 31" using assms(1) by simp
  have l32: "length inp \<le> 32" using assms(1) by simp
  have m: "charCodeVec msg = charCodeVec_of sg inp" "encodedLine msg = encodedLine_of sg inp"
    unfolding msg_def cm by (simp_all add: shannonCode_msg_fresh[OF l31])
  have ok: "\<forall>e \<in> set (charCodeVec msg). wire_ok e"
    using short_line_wire_ok[OF l32] by (simp add: m)
  have lv: "length (charCodeVec msg) < 2 ^ 31"
    using length_charCodeVec_of[of sg inp] assms(1) by (simp add: m scanned_def)
  have le: "length (encodedLine msg) < 2 ^ 31"
    using short_line_encoded(1)[OF l32, of sg] by (simp add: m)
  have ne: "NUL \<notin> set (encodedLine msg)"
    using short_line_encoded(2)[OF l32, of sg] by (simp add: m)
  have "bindf (handle_request sg be message) (receive be) = Inr (charCodeVec msg, encodedLine msg)"
    using nul msg_def ok lv le ne by (rule response_roundtrip)
  then show ?thesis
    by (simp add: communicateWithServer_def rq m shannonCode_def)
qed

text \<open>
  C7, as amended. For a line shorter than 31 bytes that holds no NUL byte, what the
  client of \<^verbatim>\<open>src/client.cpp\<close> parses from the reply of the handler of
  \<^verbatim>\<open>src/server.cpp\<close> is the alphabet and the encoded message of the encoder on that
  line, whatever the request buffer held before and for either byte order.
\<close>

theorem network_roundtrip:
  "length inp < 31 \<Longrightarrow> NUL \<notin> set inp \<Longrightarrow>
   communicateWithServer sg be stack inp = Inr (shannonCode sg inp)"
  by (rule roundtrip_short) simp_all

text \<open>The line \<^verbatim>\<open>aab\<close>, sent from a buffer full of \<^verbatim>\<open>x\<close>.\<close>

theorem network_roundtrip_witness:
  "length ''aab'' < 31 \<and> NUL \<notin> set ''aab'' \<and>
   communicateWithServer True False (replicate 32 (CHR ''x'')) ''aab'' = Inr (shannonCode True ''aab'')"
proof -
  have a: "length ''aab'' < 31" by simp
  have b: "NUL \<notin> set ''aab''" by (simp add: NUL_def)
  from network_roundtrip[OF a b] a b show ?thesis by blast
qed

text \<open>
  C7 as stated fails on a line with a NUL byte: the request is a C string, so the
  server encodes the bytes before the NUL only. For the three bytes a, NUL, b the client
  receives the encoding of \<^verbatim>\<open>a\<close>.
\<close>

theorem network_roundtrip_NUL:
  "length [CHR ''a'', NUL, CHR ''b''] < 31 \<and>
   communicateWithServer True False (replicate 32 NUL) [CHR ''a'', NUL, CHR ''b'']
     = Inr (shannonCode True ''a'') \<and>
   shannonCode True ''a'' \<noteq> shannonCode True [CHR ''a'', NUL, CHR ''b'']"
proof -
  have "c_string [CHR ''a'', NUL, CHR ''b''] = ''a''" by (simp add: c_string_def NUL_def)
  then have r: "request_of (replicate 32 NUL) [CHR ''a'', NUL, CHR ''b''] =
           request_of (replicate 32 NUL) ''a''"
    by (simp add: request_of_def c_string_def NUL_def)
  have "communicateWithServer True False (replicate 32 NUL) ''a'' = Inr (shannonCode True ''a'')"
    by (rule roundtrip_short) (simp_all add: NUL_def)
  then have "communicateWithServer True False (replicate 32 NUL) [CHR ''a'', NUL, CHR ''b'']
     = Inr (shannonCode True ''a'')"
    by (simp add: communicateWithServer_def r)
  moreover have "shannonCode True ''a'' \<noteq> shannonCode True [CHR ''a'', NUL, CHR ''b'']"
    by code_simp
  ultimately show ?thesis by simp
qed

subsection \<open>The coordinator: the invariant holds in every reachable state\<close>

text \<open>
  \<open>inv\<close> has four parts. \<open>inv_main\<close>: where \<^verbatim>\<open>main\<close> is in its loop, and who holds
  \<^verbatim>\<open>mutex1\<close>. \<open>inv_handoff\<close>: thread \<open>k\<close> exists once \<^verbatim>\<open>main\<close> has passed index \<open>k\<close>, and
  after its copy it carries id \<open>k\<close> and line \<open>k\<close>: \<^verbatim>\<open>main\<close> cannot overwrite the shared
  record before the newest thread has copied it and released \<^verbatim>\<open>mutex1\<close>. \<open>inv_turn\<close>: the
  threads below the counter have printed and incremented, only the thread whose id is the
  counter can be between the loop and the increment, and the console is what those
  threads printed. \<open>inv_mutex2\<close>: \<^verbatim>\<open>mutex2\<close> has at most one holder, and a thread that
  sleeps although its turn has come has a broadcast pending.
\<close>

lemma holds2_simps [simp]:
  "\<not> holds2 T_idle" "\<not> holds2 T_copy" "\<not> holds2 T_unlock1" "\<not> holds2 T_compute"
  "\<not> holds2 T_lock2" "holds2 T_test" "\<not> holds2 T_asleep" "\<not> holds2 T_reacquire"
  "holds2 T_unlock2" "\<not> holds2 T_print" "\<not> holds2 T_lock2_adv" "holds2 T_incr"
  "holds2 T_broadcast" "holds2 T_unlock2_adv" "\<not> holds2 T_done"
  by (simp_all add: holds2_def)

lemma in_turn_simps [simp]:
  "\<not> in_turn T_idle" "\<not> in_turn T_copy" "\<not> in_turn T_unlock1" "\<not> in_turn T_compute"
  "\<not> in_turn T_lock2" "\<not> in_turn T_test" "\<not> in_turn T_asleep" "\<not> in_turn T_reacquire"
  "in_turn T_unlock2" "in_turn T_print" "in_turn T_lock2_adv" "in_turn T_incr"
  "\<not> in_turn T_broadcast" "\<not> in_turn T_unlock2_adv" "\<not> in_turn T_done"
  by (simp_all add: in_turn_def)

lemma past_turn_simps [simp]:
  "\<not> past_turn T_idle" "\<not> past_turn T_copy" "\<not> past_turn T_unlock1" "\<not> past_turn T_compute"
  "\<not> past_turn T_lock2" "\<not> past_turn T_test" "\<not> past_turn T_asleep" "\<not> past_turn T_reacquire"
  "\<not> past_turn T_unlock2" "\<not> past_turn T_print" "\<not> past_turn T_lock2_adv" "\<not> past_turn T_incr"
  "past_turn T_broadcast" "past_turn T_unlock2_adv" "past_turn T_done"
  by (simp_all add: past_turn_def)

lemma printed_simps [simp]:
  "\<not> printed T_idle" "\<not> printed T_copy" "\<not> printed T_unlock1" "\<not> printed T_compute"
  "\<not> printed T_lock2" "\<not> printed T_test" "\<not> printed T_asleep" "\<not> printed T_reacquire"
  "\<not> printed T_unlock2" "\<not> printed T_print" "printed T_lock2_adv" "printed T_incr"
  "\<not> printed T_broadcast" "\<not> printed T_unlock2_adv" "\<not> printed T_done"
  by (simp_all add: printed_def)

lemma early_simps [simp]:
  "early T_idle" "early T_copy" "early T_unlock1" "\<not> early T_compute"
  "\<not> early T_lock2" "\<not> early T_test" "\<not> early T_asleep" "\<not> early T_reacquire"
  "\<not> early T_unlock2" "\<not> early T_print" "\<not> early T_lock2_adv" "\<not> early T_incr"
  "\<not> early T_broadcast" "\<not> early T_unlock2_adv" "\<not> early T_done"
  by (simp_all add: early_def)

lemma inv_initial: "inv (initial inputs)"
  by (simp add: inv_def inv_main_def inv_handoff_def inv_turn_def inv_mutex2_def initial_def)

subsection \<open>Steps that leave the hand-off alone\<close>

lemma late_frame:
  assumes m: "inv_main s" and h: "inv_handoff s"
    and same: "inputLines s' = inputLines s" "main_at s' = main_at s" "i_main s' = i_main s"
      "mutex1 s' = mutex1 s" "shared_line s' = shared_line s" "shared_id s' = shared_id s"
    and loc: "\<And>j. localID (threads s' j) = localID (threads s j)"
      "\<And>j. localLine (threads s' j) = localLine (threads s j)"
    and pcs: "\<And>j. early (wpc (threads s j)) \<or> early (wpc (threads s' j)) \<Longrightarrow>
                  wpc (threads s' j) = wpc (threads s j)"
  shows "inv_main s'" and "inv_handoff s'"
proof -
  have e: "wpc (threads s' j) = p \<longleftrightarrow> wpc (threads s j) = p" if "early p" for j p
    using pcs[of j] that by metis
  have idle: "wpc (threads s' j) = T_idle \<longleftrightarrow> wpc (threads s j) = T_idle" for j
    by (rule e) simp
  have copy: "wpc (threads s' j) = T_copy \<longleftrightarrow> wpc (threads s j) = T_copy" for j
    by (rule e) simp
  have unl: "wpc (threads s' j) = T_unlock1 \<longleftrightarrow> wpc (threads s j) = T_unlock1" for j
    by (rule e) simp
  show "inv_main s'"
    using m unfolding inv_main_def by (simp add: same copy unl)
  show "inv_handoff s'"
    using h unfolding inv_handoff_def by (simp add: same loc idle copy unl)
qed

subsection \<open>Steps that leave the turn alone\<close>

lemma turn_frame:
  assumes t: "inv_turn s"
    and same: "inputLines s' = inputLines s" "counter s' = counter s" "console s' = console s"
    and pcs: "\<And>j. past_turn (wpc (threads s' j)) = past_turn (wpc (threads s j))"
      "\<And>j. printed (wpc (threads s' j)) = printed (wpc (threads s j))"
      "\<And>j. in_turn (wpc (threads s' j)) \<Longrightarrow> in_turn (wpc (threads s j)) \<or> int j = counter s"
  shows "inv_turn s'"
  using t pcs(3) unfolding inv_turn_def by (simp add: same pcs(1,2)) blast

subsection \<open>One thread changes its place and perhaps the lock\<close>

lemma mutex2_step:
  assumes i: "inv_mutex2 s"
    and pcs: "\<And>j. wpc (threads s' j) = (if j = k then q else wpc (threads s j))"
    and p: "wpc (threads s k) = p"
    and c: "counter s' = counter s \<or> q = T_broadcast"
    and lock: "mutex2 s' = (if holds2 q = holds2 p then mutex2 s else holds2 q)"
    and acq: "holds2 q \<Longrightarrow> \<not> holds2 p \<Longrightarrow> \<not> mutex2 s"
    and sl: "q = T_asleep \<Longrightarrow> int k \<noteq> counter s"
    and nb: "p \<noteq> T_broadcast"
  shows "inv_mutex2 s'"
proof -
  from i have m: "mutex2 s \<longleftrightarrow> (\<exists>j. holds2 (wpc (threads s j)))"
    and u: "\<And>j j'. holds2 (wpc (threads s j)) \<Longrightarrow> holds2 (wpc (threads s j')) \<Longrightarrow> j = j'"
    and a: "\<And>j. wpc (threads s j) = T_asleep \<Longrightarrow>
              int j \<noteq> counter s \<or> (\<exists>j'. wpc (threads s j') = T_broadcast)"
    unfolding inv_mutex2_def by blast+
  have held: "mutex2 s" if "holds2 p"
    using that p m by blast
  have others: "\<not> holds2 (wpc (threads s j))" if "j \<noteq> k" "holds2 p \<or> holds2 q" for j
  proof (cases "holds2 p")
    case True
    then show ?thesis using u[of j k] p that(1) by auto
  next
    case False
    then have "\<not> mutex2 s" using that(2) acq by blast
    then show ?thesis using m by blast
  qed
  have c1: "mutex2 s' \<longleftrightarrow> (\<exists>j. holds2 (wpc (threads s' j)))"
  proof (cases "holds2 q")
    case True
    then have "holds2 (wpc (threads s' k))" by (simp add: pcs)
    moreover have "mutex2 s'" using True lock held by (cases "holds2 p") simp_all
    ultimately show ?thesis by blast
  next
    case q: False
    show ?thesis
    proof (cases "holds2 p")
      case True
      then have "\<not> holds2 (wpc (threads s' j))" for j
        using others[of j] q by (simp add: pcs)
      then show ?thesis using q True lock by simp
    next
      case False
      then have "(\<exists>j. holds2 (wpc (threads s' j))) \<longleftrightarrow> (\<exists>j. holds2 (wpc (threads s j)))"
        using q p by (auto simp: pcs split: if_splits)
      then show ?thesis using q False lock m by simp
    qed
  qed
  have c2: "j = j'" if "holds2 (wpc (threads s' j))" "holds2 (wpc (threads s' j'))" for j j'
  proof (cases "holds2 q")
    case True
    have "j'' = k" if "holds2 (wpc (threads s' j''))" for j''
      using that others[of j''] True by (cases "j'' = k") (auto simp: pcs)
    then show ?thesis using that by blast
  next
    case False
    then have "j \<noteq> k" "j' \<noteq> k" using that by (auto simp: pcs split: if_splits)
    then show ?thesis using that u[of j j'] by (simp add: pcs)
  qed
  have c3: "int j \<noteq> counter s' \<or> (\<exists>j'. wpc (threads s' j') = T_broadcast)"
    if "wpc (threads s' j) = T_asleep" for j
  proof (cases "q = T_broadcast")
    case True
    then have "wpc (threads s' k) = T_broadcast" by (simp add: pcs)
    then show ?thesis by blast
  next
    case nq: False
    then have c': "counter s' = counter s" using c by simp
    show ?thesis
    proof (cases "j = k")
      case True
      then show ?thesis using that sl by (simp add: pcs c')
    next
      case False
      then have "wpc (threads s j) = T_asleep" using that by (simp add: pcs)
      then consider "int j \<noteq> counter s" | j' where "wpc (threads s j') = T_broadcast"
        using a by blast
      then show ?thesis
      proof cases
        case 1
        then show ?thesis by (simp add: c')
      next
        case 2
        then have "j' \<noteq> k" using p nb by auto
        then have "wpc (threads s' j') = T_broadcast" using 2 by (simp add: pcs)
        then show ?thesis by blast
      qed
    qed
  qed
  show ?thesis unfolding inv_mutex2_def using c1 c2 c3 by blast
qed

lemma mutex2_wake:
  assumes i: "inv_mutex2 s"
    and pcs: "\<And>j. holds2 (wpc (threads s' j)) = holds2 (wpc (threads s j))"
    and lock: "mutex2 s' = mutex2 s"
    and awake: "\<And>j. wpc (threads s' j) \<noteq> T_asleep"
  shows "inv_mutex2 s'"
  using i unfolding inv_mutex2_def by (simp add: pcs lock awake)

subsection \<open>The steps of \<^verbatim>\<open>main\<close>\<close>

lemma main_step_inv:
  assumes "inv s" "main_step s = Some s'"
  shows "inv s'"
proof (cases "main_at s")
  case M_test
  then have s': "s' = s\<lparr>main_at := (if i_main s < length (inputLines s) then M_lock1 else M_join)\<rparr>"
    using assms(2) by (simp add: main_step_def)
  from assms(1) have m: "inv_main s" and h: "inv_handoff s" and t: "inv_turn s"
    and x: "inv_mutex2 s" by (simp_all add: inv_def)
  have "inv_main s'" using m M_test unfolding s' by (simp add: inv_main_def)
  moreover have "inv_handoff s'" using h M_test unfolding s' by (simp add: inv_handoff_def)
  moreover have "inv_turn s'" using t unfolding s' by (simp add: inv_turn_def)
  moreover have "inv_mutex2 s'" using x unfolding s' by (simp add: inv_mutex2_def)
  ultimately show ?thesis by (simp add: inv_def)
next
  case M_lock1
  then have free: "\<not> mutex1 s" and s': "s' = s\<lparr>mutex1 := True, main_at := M_set\<rparr>"
    using assms(2) by (simp_all add: main_step_def split: if_splits)
  from assms(1) have m: "inv_main s" and h: "inv_handoff s" and t: "inv_turn s"
    and x: "inv_mutex2 s" by (simp_all add: inv_def)
  have none: "wpc (threads s k) \<noteq> T_copy \<and> wpc (threads s k) \<noteq> T_unlock1" for k
    using h free unfolding inv_handoff_def by blast
  have "inv_main s'" using m M_lock1 unfolding s' by (simp add: inv_main_def)
  moreover have "inv_handoff s'" using h none unfolding s' by (simp add: inv_handoff_def)
  moreover have "inv_turn s'" using t unfolding s' by (simp add: inv_turn_def)
  moreover have "inv_mutex2 s'" using x unfolding s' by (simp add: inv_mutex2_def)
  ultimately show ?thesis by (simp add: inv_def)
next
  case M_set
  then have s': "s' = s\<lparr>shared_line := inputLines s ! i_main s, shared_id := int (i_main s),
                        main_at := M_create\<rparr>"
    using assms(2) by (simp add: main_step_def)
  from assms(1) have m: "inv_main s" and h: "inv_handoff s" and t: "inv_turn s"
    and x: "inv_mutex2 s" by (simp_all add: inv_def)
  have none: "wpc (threads s k) \<noteq> T_copy \<and> wpc (threads s k) \<noteq> T_unlock1" for k
    using h M_set unfolding inv_handoff_def by auto
  have "inv_main s'" using m M_set unfolding s' by (simp add: inv_main_def)
  moreover have "inv_handoff s'" using h none unfolding s' by (simp add: inv_handoff_def)
  moreover have "inv_turn s'" using t unfolding s' by (simp add: inv_turn_def)
  moreover have "inv_mutex2 s'" using x unfolding s' by (simp add: inv_mutex2_def)
  ultimately show ?thesis by (simp add: inv_def)
next
  case M_create
  then have s': "s' = s\<lparr>threads := (threads s)(i_main s := (threads s (i_main s))\<lparr>wpc := T_copy\<rparr>),
                        i_main := i_main s + 1, main_at := M_test\<rparr>"
    using assms(2) by (simp add: main_step_def)
  from assms(1) have m: "inv_main s" and h: "inv_handoff s" and t: "inv_turn s"
    and x: "inv_mutex2 s" by (simp_all add: inv_def)
  have idle: "wpc (threads s (i_main s)) = T_idle"
    using h by (simp add: inv_handoff_def)
  have m': "inv_main s'"
    using m M_create unfolding s' by (simp add: inv_main_def)
  have h': "inv_handoff s'"
    using m h M_create unfolding s' by (auto simp: inv_main_def inv_handoff_def)
  have t': "inv_turn s'"
    using t by (rule turn_frame) (auto simp: s' idle split: if_splits)
  have x': "inv_mutex2 s'"
    using x by (rule mutex2_step[where k = "i_main s" and q = T_copy and p = T_idle])
      (auto simp: s' idle split: if_splits)
  show ?thesis using m' h' t' x' by (simp add: inv_def)
next
  case M_join
  then show ?thesis using assms(2) by (simp add: main_step_def)
qed

subsection \<open>The steps of a thread\<close>

lemma printed_in_turn: "printed p \<Longrightarrow> in_turn p"
  by (cases p) simp_all

lemma inv_own:
  "inv s \<Longrightarrow> \<not> early (wpc (threads s k)) \<Longrightarrow>
   localID (threads s k) = int k \<and> localLine (threads s k) = inputLines s ! k"
  unfolding inv_def inv_handoff_def early_def by blast

lemma inv_its_turn: "inv s \<Longrightarrow> in_turn (wpc (threads s k)) \<Longrightarrow> counter s = int k"
  unfolding inv_def inv_turn_def by simp

lemma step_T_compute:
  assumes "inv s" and pk: "wpc (threads s k) = T_compute" and "thread_step spurious k s = Some s'"
  shows "inv s'"
proof -
  from assms(1) have m: "inv_main s" and h: "inv_handoff s" and t: "inv_turn s"
    and x: "inv_mutex2 s" by (simp_all add: inv_def)
  have s': "s' = goto_pc k T_lock2 s"
    using assms(3) pk by (simp add: thread_step_def Let_def)
  have fr: "inputLines s' = inputLines s" "main_at s' = main_at s" "i_main s' = i_main s"
    "mutex1 s' = mutex1 s" "shared_line s' = shared_line s" "shared_id s' = shared_id s"
    "\<And>j. localID (threads s' j) = localID (threads s j)"
    "\<And>j. localLine (threads s' j) = localLine (threads s j)"
    by (simp_all add: s' goto_pc_def)
  have pcs: "wpc (threads s' j) = (if j = k then T_lock2 else wpc (threads s j))" for j
    by (simp add: s' goto_pc_def)
  have pe: "wpc (threads s' j) = wpc (threads s j)"
    if "early (wpc (threads s j)) \<or> early (wpc (threads s' j))" for j
    using that pk by (cases "j = k") (simp_all add: pcs)
  have "inv_main s'" "inv_handoff s'"
    by (rule late_frame(1)[OF m h fr pe], assumption, rule late_frame(2)[OF m h fr pe], assumption)
  moreover have "inv_turn s'"
  proof (rule turn_frame[OF t])
    show "inputLines s' = inputLines s" "counter s' = counter s" "console s' = console s"
      by (simp_all add: s' goto_pc_def)
    fix j
    show "past_turn (wpc (threads s' j)) = past_turn (wpc (threads s j))"
      "printed (wpc (threads s' j)) = printed (wpc (threads s j))"
      by (simp_all add: pcs pk)
    show "in_turn (wpc (threads s' j)) \<Longrightarrow> in_turn (wpc (threads s j)) \<or> int j = counter s"
      by (simp add: pcs pk split: if_splits)
  qed
  moreover have "inv_mutex2 s'"
  proof (rule mutex2_step[OF x, of s' k T_lock2 T_compute])
    show "wpc (threads s' j) = (if j = k then T_lock2 else wpc (threads s j))" for j
      by (rule pcs)
    show "wpc (threads s k) = T_compute" by (rule pk)
    show "counter s' = counter s \<or> T_lock2 = T_broadcast" by (simp add: s' goto_pc_def)
    show "mutex2 s' = (if holds2 T_lock2 = holds2 T_compute then mutex2 s else holds2 T_lock2)"
      by (simp add: s' goto_pc_def)
    show "\<not> mutex2 s" if "holds2 T_lock2" "\<not> holds2 T_compute"
      using that by simp
    show "int k \<noteq> counter s" if "T_lock2 = T_asleep"
      using that by simp
    show "T_compute \<noteq> T_broadcast" by simp
  qed
  ultimately show ?thesis by (simp add: inv_def)
qed

lemma step_T_lock2:
  assumes "inv s" and pk: "wpc (threads s k) = T_lock2" and "thread_step spurious k s = Some s'"
  shows "inv s'"
proof -
  from assms(1) have m: "inv_main s" and h: "inv_handoff s" and t: "inv_turn s"
    and x: "inv_mutex2 s" by (simp_all add: inv_def)
  have free: "\<not> mutex2 s" and s': "s' = goto_pc k T_test (s\<lparr>mutex2 := True\<rparr>)"
    using assms(3) pk by (simp_all add: thread_step_def Let_def split: if_splits)
  have fr: "inputLines s' = inputLines s" "main_at s' = main_at s" "i_main s' = i_main s"
    "mutex1 s' = mutex1 s" "shared_line s' = shared_line s" "shared_id s' = shared_id s"
    "\<And>j. localID (threads s' j) = localID (threads s j)"
    "\<And>j. localLine (threads s' j) = localLine (threads s j)"
    by (simp_all add: s' goto_pc_def)
  have pcs: "wpc (threads s' j) = (if j = k then T_test else wpc (threads s j))" for j
    by (simp add: s' goto_pc_def)
  have pe: "wpc (threads s' j) = wpc (threads s j)"
    if "early (wpc (threads s j)) \<or> early (wpc (threads s' j))" for j
    using that pk by (cases "j = k") (simp_all add: pcs)
  have "inv_main s'" "inv_handoff s'"
    by (rule late_frame(1)[OF m h fr pe], assumption, rule late_frame(2)[OF m h fr pe], assumption)
  moreover have "inv_turn s'"
  proof (rule turn_frame[OF t])
    show "inputLines s' = inputLines s" "counter s' = counter s" "console s' = console s"
      by (simp_all add: s' goto_pc_def)
    fix j
    show "past_turn (wpc (threads s' j)) = past_turn (wpc (threads s j))"
      "printed (wpc (threads s' j)) = printed (wpc (threads s j))"
      by (simp_all add: pcs pk)
    show "in_turn (wpc (threads s' j)) \<Longrightarrow> in_turn (wpc (threads s j)) \<or> int j = counter s"
      by (simp add: pcs pk split: if_splits)
  qed
  moreover have "inv_mutex2 s'"
  proof (rule mutex2_step[OF x, of s' k T_test T_lock2])
    show "wpc (threads s' j) = (if j = k then T_test else wpc (threads s j))" for j
      by (rule pcs)
    show "wpc (threads s k) = T_lock2" by (rule pk)
    show "counter s' = counter s \<or> T_test = T_broadcast" by (simp add: s' goto_pc_def)
    show "mutex2 s' = (if holds2 T_test = holds2 T_lock2 then mutex2 s else holds2 T_test)"
      by (simp add: s' goto_pc_def)
    show "\<not> mutex2 s" if "holds2 T_test" "\<not> holds2 T_lock2"
      using that free by simp
    show "int k \<noteq> counter s" if "T_test = T_asleep"
      using that by simp
    show "T_lock2 \<noteq> T_broadcast" by simp
  qed
  ultimately show ?thesis by (simp add: inv_def)
qed

lemma step_T_asleep:
  assumes "inv s" and pk: "wpc (threads s k) = T_asleep" and "thread_step spurious k s = Some s'"
  shows "inv s'"
proof -
  from assms(1) have m: "inv_main s" and h: "inv_handoff s" and t: "inv_turn s"
    and x: "inv_mutex2 s" by (simp_all add: inv_def)
  have s': "s' = goto_pc k T_reacquire s"
    using assms(3) pk by (simp_all add: thread_step_def Let_def split: if_splits)
  have fr: "inputLines s' = inputLines s" "main_at s' = main_at s" "i_main s' = i_main s"
    "mutex1 s' = mutex1 s" "shared_line s' = shared_line s" "shared_id s' = shared_id s"
    "\<And>j. localID (threads s' j) = localID (threads s j)"
    "\<And>j. localLine (threads s' j) = localLine (threads s j)"
    by (simp_all add: s' goto_pc_def)
  have pcs: "wpc (threads s' j) = (if j = k then T_reacquire else wpc (threads s j))" for j
    by (simp add: s' goto_pc_def)
  have pe: "wpc (threads s' j) = wpc (threads s j)"
    if "early (wpc (threads s j)) \<or> early (wpc (threads s' j))" for j
    using that pk by (cases "j = k") (simp_all add: pcs)
  have "inv_main s'" "inv_handoff s'"
    by (rule late_frame(1)[OF m h fr pe], assumption, rule late_frame(2)[OF m h fr pe], assumption)
  moreover have "inv_turn s'"
  proof (rule turn_frame[OF t])
    show "inputLines s' = inputLines s" "counter s' = counter s" "console s' = console s"
      by (simp_all add: s' goto_pc_def)
    fix j
    show "past_turn (wpc (threads s' j)) = past_turn (wpc (threads s j))"
      "printed (wpc (threads s' j)) = printed (wpc (threads s j))"
      by (simp_all add: pcs pk)
    show "in_turn (wpc (threads s' j)) \<Longrightarrow> in_turn (wpc (threads s j)) \<or> int j = counter s"
      by (simp add: pcs pk split: if_splits)
  qed
  moreover have "inv_mutex2 s'"
  proof (rule mutex2_step[OF x, of s' k T_reacquire T_asleep])
    show "wpc (threads s' j) = (if j = k then T_reacquire else wpc (threads s j))" for j
      by (rule pcs)
    show "wpc (threads s k) = T_asleep" by (rule pk)
    show "counter s' = counter s \<or> T_reacquire = T_broadcast" by (simp add: s' goto_pc_def)
    show "mutex2 s' = (if holds2 T_reacquire = holds2 T_asleep then mutex2 s else holds2 T_reacquire)"
      by (simp add: s' goto_pc_def)
    show "\<not> mutex2 s" if "holds2 T_reacquire" "\<not> holds2 T_asleep"
      using that by simp
    show "int k \<noteq> counter s" if "T_reacquire = T_asleep"
      using that by simp
    show "T_asleep \<noteq> T_broadcast" by simp
  qed
  ultimately show ?thesis by (simp add: inv_def)
qed

lemma step_T_reacquire:
  assumes "inv s" and pk: "wpc (threads s k) = T_reacquire" and "thread_step spurious k s = Some s'"
  shows "inv s'"
proof -
  from assms(1) have m: "inv_main s" and h: "inv_handoff s" and t: "inv_turn s"
    and x: "inv_mutex2 s" by (simp_all add: inv_def)
  have free: "\<not> mutex2 s" and s': "s' = goto_pc k T_test (s\<lparr>mutex2 := True\<rparr>)"
    using assms(3) pk by (simp_all add: thread_step_def Let_def split: if_splits)
  have fr: "inputLines s' = inputLines s" "main_at s' = main_at s" "i_main s' = i_main s"
    "mutex1 s' = mutex1 s" "shared_line s' = shared_line s" "shared_id s' = shared_id s"
    "\<And>j. localID (threads s' j) = localID (threads s j)"
    "\<And>j. localLine (threads s' j) = localLine (threads s j)"
    by (simp_all add: s' goto_pc_def)
  have pcs: "wpc (threads s' j) = (if j = k then T_test else wpc (threads s j))" for j
    by (simp add: s' goto_pc_def)
  have pe: "wpc (threads s' j) = wpc (threads s j)"
    if "early (wpc (threads s j)) \<or> early (wpc (threads s' j))" for j
    using that pk by (cases "j = k") (simp_all add: pcs)
  have "inv_main s'" "inv_handoff s'"
    by (rule late_frame(1)[OF m h fr pe], assumption, rule late_frame(2)[OF m h fr pe], assumption)
  moreover have "inv_turn s'"
  proof (rule turn_frame[OF t])
    show "inputLines s' = inputLines s" "counter s' = counter s" "console s' = console s"
      by (simp_all add: s' goto_pc_def)
    fix j
    show "past_turn (wpc (threads s' j)) = past_turn (wpc (threads s j))"
      "printed (wpc (threads s' j)) = printed (wpc (threads s j))"
      by (simp_all add: pcs pk)
    show "in_turn (wpc (threads s' j)) \<Longrightarrow> in_turn (wpc (threads s j)) \<or> int j = counter s"
      by (simp add: pcs pk split: if_splits)
  qed
  moreover have "inv_mutex2 s'"
  proof (rule mutex2_step[OF x, of s' k T_test T_reacquire])
    show "wpc (threads s' j) = (if j = k then T_test else wpc (threads s j))" for j
      by (rule pcs)
    show "wpc (threads s k) = T_reacquire" by (rule pk)
    show "counter s' = counter s \<or> T_test = T_broadcast" by (simp add: s' goto_pc_def)
    show "mutex2 s' = (if holds2 T_test = holds2 T_reacquire then mutex2 s else holds2 T_test)"
      by (simp add: s' goto_pc_def)
    show "\<not> mutex2 s" if "holds2 T_test" "\<not> holds2 T_reacquire"
      using that free by simp
    show "int k \<noteq> counter s" if "T_test = T_asleep"
      using that by simp
    show "T_reacquire \<noteq> T_broadcast" by simp
  qed
  ultimately show ?thesis by (simp add: inv_def)
qed

lemma step_T_unlock2:
  assumes "inv s" and pk: "wpc (threads s k) = T_unlock2" and "thread_step spurious k s = Some s'"
  shows "inv s'"
proof -
  from assms(1) have m: "inv_main s" and h: "inv_handoff s" and t: "inv_turn s"
    and x: "inv_mutex2 s" by (simp_all add: inv_def)
  have s': "s' = goto_pc k T_print (s\<lparr>mutex2 := False\<rparr>)"
    using assms(3) pk by (simp add: thread_step_def Let_def)
  have fr: "inputLines s' = inputLines s" "main_at s' = main_at s" "i_main s' = i_main s"
    "mutex1 s' = mutex1 s" "shared_line s' = shared_line s" "shared_id s' = shared_id s"
    "\<And>j. localID (threads s' j) = localID (threads s j)"
    "\<And>j. localLine (threads s' j) = localLine (threads s j)"
    by (simp_all add: s' goto_pc_def)
  have pcs: "wpc (threads s' j) = (if j = k then T_print else wpc (threads s j))" for j
    by (simp add: s' goto_pc_def)
  have pe: "wpc (threads s' j) = wpc (threads s j)"
    if "early (wpc (threads s j)) \<or> early (wpc (threads s' j))" for j
    using that pk by (cases "j = k") (simp_all add: pcs)
  have "inv_main s'" "inv_handoff s'"
    by (rule late_frame(1)[OF m h fr pe], assumption, rule late_frame(2)[OF m h fr pe], assumption)
  moreover have "inv_turn s'"
  proof (rule turn_frame[OF t])
    show "inputLines s' = inputLines s" "counter s' = counter s" "console s' = console s"
      by (simp_all add: s' goto_pc_def)
    fix j
    show "past_turn (wpc (threads s' j)) = past_turn (wpc (threads s j))"
      "printed (wpc (threads s' j)) = printed (wpc (threads s j))"
      by (simp_all add: pcs pk)
    show "in_turn (wpc (threads s' j)) \<Longrightarrow> in_turn (wpc (threads s j)) \<or> int j = counter s"
      by (simp add: pcs pk split: if_splits)
  qed
  moreover have "inv_mutex2 s'"
  proof (rule mutex2_step[OF x, of s' k T_print T_unlock2])
    show "wpc (threads s' j) = (if j = k then T_print else wpc (threads s j))" for j
      by (rule pcs)
    show "wpc (threads s k) = T_unlock2" by (rule pk)
    show "counter s' = counter s \<or> T_print = T_broadcast" by (simp add: s' goto_pc_def)
    show "mutex2 s' = (if holds2 T_print = holds2 T_unlock2 then mutex2 s else holds2 T_print)"
      by (simp add: s' goto_pc_def)
    show "\<not> mutex2 s" if "holds2 T_print" "\<not> holds2 T_unlock2"
      using that by simp
    show "int k \<noteq> counter s" if "T_print = T_asleep"
      using that by simp
    show "T_unlock2 \<noteq> T_broadcast" by simp
  qed
  ultimately show ?thesis by (simp add: inv_def)
qed

lemma step_T_lock2_adv:
  assumes "inv s" and pk: "wpc (threads s k) = T_lock2_adv" and "thread_step spurious k s = Some s'"
  shows "inv s'"
proof -
  from assms(1) have m: "inv_main s" and h: "inv_handoff s" and t: "inv_turn s"
    and x: "inv_mutex2 s" by (simp_all add: inv_def)
  have free: "\<not> mutex2 s" and s': "s' = goto_pc k T_incr (s\<lparr>mutex2 := True\<rparr>)"
    using assms(3) pk by (simp_all add: thread_step_def Let_def split: if_splits)
  have fr: "inputLines s' = inputLines s" "main_at s' = main_at s" "i_main s' = i_main s"
    "mutex1 s' = mutex1 s" "shared_line s' = shared_line s" "shared_id s' = shared_id s"
    "\<And>j. localID (threads s' j) = localID (threads s j)"
    "\<And>j. localLine (threads s' j) = localLine (threads s j)"
    by (simp_all add: s' goto_pc_def)
  have pcs: "wpc (threads s' j) = (if j = k then T_incr else wpc (threads s j))" for j
    by (simp add: s' goto_pc_def)
  have pe: "wpc (threads s' j) = wpc (threads s j)"
    if "early (wpc (threads s j)) \<or> early (wpc (threads s' j))" for j
    using that pk by (cases "j = k") (simp_all add: pcs)
  have "inv_main s'" "inv_handoff s'"
    by (rule late_frame(1)[OF m h fr pe], assumption, rule late_frame(2)[OF m h fr pe], assumption)
  moreover have "inv_turn s'"
  proof (rule turn_frame[OF t])
    show "inputLines s' = inputLines s" "counter s' = counter s" "console s' = console s"
      by (simp_all add: s' goto_pc_def)
    fix j
    show "past_turn (wpc (threads s' j)) = past_turn (wpc (threads s j))"
      "printed (wpc (threads s' j)) = printed (wpc (threads s j))"
      by (simp_all add: pcs pk)
    show "in_turn (wpc (threads s' j)) \<Longrightarrow> in_turn (wpc (threads s j)) \<or> int j = counter s"
      by (simp add: pcs pk split: if_splits)
  qed
  moreover have "inv_mutex2 s'"
  proof (rule mutex2_step[OF x, of s' k T_incr T_lock2_adv])
    show "wpc (threads s' j) = (if j = k then T_incr else wpc (threads s j))" for j
      by (rule pcs)
    show "wpc (threads s k) = T_lock2_adv" by (rule pk)
    show "counter s' = counter s \<or> T_incr = T_broadcast" by (simp add: s' goto_pc_def)
    show "mutex2 s' = (if holds2 T_incr = holds2 T_lock2_adv then mutex2 s else holds2 T_incr)"
      by (simp add: s' goto_pc_def)
    show "\<not> mutex2 s" if "holds2 T_incr" "\<not> holds2 T_lock2_adv"
      using that free by simp
    show "int k \<noteq> counter s" if "T_incr = T_asleep"
      using that by simp
    show "T_lock2_adv \<noteq> T_broadcast" by simp
  qed
  ultimately show ?thesis by (simp add: inv_def)
qed

lemma step_T_unlock2_adv:
  assumes "inv s" and pk: "wpc (threads s k) = T_unlock2_adv" and "thread_step spurious k s = Some s'"
  shows "inv s'"
proof -
  from assms(1) have m: "inv_main s" and h: "inv_handoff s" and t: "inv_turn s"
    and x: "inv_mutex2 s" by (simp_all add: inv_def)
  have s': "s' = goto_pc k T_done (s\<lparr>mutex2 := False\<rparr>)"
    using assms(3) pk by (simp add: thread_step_def Let_def)
  have fr: "inputLines s' = inputLines s" "main_at s' = main_at s" "i_main s' = i_main s"
    "mutex1 s' = mutex1 s" "shared_line s' = shared_line s" "shared_id s' = shared_id s"
    "\<And>j. localID (threads s' j) = localID (threads s j)"
    "\<And>j. localLine (threads s' j) = localLine (threads s j)"
    by (simp_all add: s' goto_pc_def)
  have pcs: "wpc (threads s' j) = (if j = k then T_done else wpc (threads s j))" for j
    by (simp add: s' goto_pc_def)
  have pe: "wpc (threads s' j) = wpc (threads s j)"
    if "early (wpc (threads s j)) \<or> early (wpc (threads s' j))" for j
    using that pk by (cases "j = k") (simp_all add: pcs)
  have "inv_main s'" "inv_handoff s'"
    by (rule late_frame(1)[OF m h fr pe], assumption, rule late_frame(2)[OF m h fr pe], assumption)
  moreover have "inv_turn s'"
  proof (rule turn_frame[OF t])
    show "inputLines s' = inputLines s" "counter s' = counter s" "console s' = console s"
      by (simp_all add: s' goto_pc_def)
    fix j
    show "past_turn (wpc (threads s' j)) = past_turn (wpc (threads s j))"
      "printed (wpc (threads s' j)) = printed (wpc (threads s j))"
      by (simp_all add: pcs pk)
    show "in_turn (wpc (threads s' j)) \<Longrightarrow> in_turn (wpc (threads s j)) \<or> int j = counter s"
      by (simp add: pcs pk split: if_splits)
  qed
  moreover have "inv_mutex2 s'"
  proof (rule mutex2_step[OF x, of s' k T_done T_unlock2_adv])
    show "wpc (threads s' j) = (if j = k then T_done else wpc (threads s j))" for j
      by (rule pcs)
    show "wpc (threads s k) = T_unlock2_adv" by (rule pk)
    show "counter s' = counter s \<or> T_done = T_broadcast" by (simp add: s' goto_pc_def)
    show "mutex2 s' = (if holds2 T_done = holds2 T_unlock2_adv then mutex2 s else holds2 T_done)"
      by (simp add: s' goto_pc_def)
    show "\<not> mutex2 s" if "holds2 T_done" "\<not> holds2 T_unlock2_adv"
      using that by simp
    show "int k \<noteq> counter s" if "T_done = T_asleep"
      using that by simp
    show "T_unlock2_adv \<noteq> T_broadcast" by simp
  qed
  ultimately show ?thesis by (simp add: inv_def)
qed

text \<open>The hand-off, clause by clause.\<close>

lemma handoff_idle: "inv_handoff s \<Longrightarrow> wpc (threads s j) = T_idle \<longleftrightarrow> i_main s \<le> j"
  unfolding inv_handoff_def by blast

lemma handoff_local:
  "inv_handoff s \<Longrightarrow> wpc (threads s j) \<noteq> T_idle \<Longrightarrow> wpc (threads s j) \<noteq> T_copy \<Longrightarrow>
   localID (threads s j) = int j \<and> localLine (threads s j) = inputLines s ! j"
  unfolding inv_handoff_def by blast

lemma handoff_newest:
  "inv_handoff s \<Longrightarrow> wpc (threads s j) = T_copy \<or> wpc (threads s j) = T_unlock1 \<Longrightarrow>
   Suc j = i_main s \<and> mutex1 s \<and> (main_at s = M_test \<or> main_at s = M_lock1 \<or> main_at s = M_join)"
  unfolding inv_handoff_def by blast

lemma handoff_shared:
  "inv_handoff s \<Longrightarrow> wpc (threads s j) = T_copy \<Longrightarrow>
   shared_id s = int j \<and> shared_line s = inputLines s ! j"
  unfolding inv_handoff_def by blast

lemma inv_handoffI:
  assumes "\<And>j. wpc (threads s j) = T_idle \<longleftrightarrow> i_main s \<le> j"
    and "\<And>j. wpc (threads s j) \<noteq> T_idle \<Longrightarrow> wpc (threads s j) \<noteq> T_copy \<Longrightarrow>
      localID (threads s j) = int j \<and> localLine (threads s j) = inputLines s ! j"
    and "\<And>j. wpc (threads s j) = T_copy \<or> wpc (threads s j) = T_unlock1 \<Longrightarrow>
      Suc j = i_main s \<and> mutex1 s \<and>
      (main_at s = M_test \<or> main_at s = M_lock1 \<or> main_at s = M_join)"
    and "\<And>j. wpc (threads s j) = T_copy \<Longrightarrow>
      shared_id s = int j \<and> shared_line s = inputLines s ! j"
  shows "inv_handoff s"
  unfolding inv_handoff_def using assms by blast

lemma step_T_copy:
  assumes "inv s" and pk: "wpc (threads s k) = T_copy" and "thread_step spurious k s = Some s'"
  shows "inv s'"
proof -
  from assms(1) have m: "inv_main s" and h: "inv_handoff s" and t: "inv_turn s"
    and x: "inv_mutex2 s" by (simp_all add: inv_def)
  have s': "s' = s\<lparr>threads := (threads s)(k := (threads s k)
      \<lparr>wpc := T_unlock1, localID := shared_id s, localLine := shared_line s\<rparr>)\<rparr>"
    using assms(3) pk by (simp add: thread_step_def Let_def)
  have kc: "Suc k = i_main s" "mutex1 s" "main_at s = M_test \<or> main_at s = M_lock1 \<or> main_at s = M_join"
    using handoff_newest[OF h, of k] pk by simp_all
  have sh: "shared_id s = int k" "shared_line s = inputLines s ! k"
    using handoff_shared[OF h, of k] pk by simp_all
  have k1: "i_main s - Suc 0 = k" using kc(1) by simp
  have only: "wpc (threads s j) \<noteq> T_copy \<and> wpc (threads s j) \<noteq> T_unlock1" if "j \<noteq> k" for j
    using handoff_newest[OF h, of j] kc(1) that by auto
  have pcs: "wpc (threads s' j) = (if j = k then T_unlock1 else wpc (threads s j))" for j
    by (simp add: s')
  have loc: "localID (threads s' j) = (if j = k then int k else localID (threads s j))"
    "localLine (threads s' j) = (if j = k then inputLines s ! k else localLine (threads s j))" for j
    by (simp_all add: s' sh)
  have fr: "inputLines s' = inputLines s" "main_at s' = main_at s" "i_main s' = i_main s"
    "mutex1 s' = mutex1 s" "shared_line s' = shared_line s" "shared_id s' = shared_id s"
    "counter s' = counter s" "console s' = console s" "mutex2 s' = mutex2 s"
    by (simp_all add: s')
  have newest: "0 < i_main s" "wpc (threads s' (i_main s - 1)) = T_unlock1"
    using kc(1) k1 by (simp_all add: pcs)
  have "inv_main s'"
    using m newest unfolding inv_main_def by (simp add: fr)
  moreover have "inv_handoff s'"
  proof (rule inv_handoffI)
    fix j show "wpc (threads s' j) = T_idle \<longleftrightarrow> i_main s' \<le> j"
      using handoff_idle[OF h, of j] pk by (cases "j = k") (simp_all add: pcs fr)
    show "localID (threads s' j) = int j \<and> localLine (threads s' j) = inputLines s' ! j"
      if "wpc (threads s' j) \<noteq> T_idle" "wpc (threads s' j) \<noteq> T_copy"
      using that handoff_local[OF h, of j] by (cases "j = k") (simp_all add: pcs fr loc)
    show "Suc j = i_main s' \<and> mutex1 s' \<and>
        (main_at s' = M_test \<or> main_at s' = M_lock1 \<or> main_at s' = M_join)"
      if "wpc (threads s' j) = T_copy \<or> wpc (threads s' j) = T_unlock1"
    proof (cases "j = k")
      case True
      then show ?thesis using kc by (simp add: fr)
    next
      case False
      then show ?thesis using that only[OF False] by (simp add: pcs)
    qed
    show "shared_id s' = int j \<and> shared_line s' = inputLines s' ! j"
      if "wpc (threads s' j) = T_copy"
    proof (cases "j = k")
      case True
      then show ?thesis using that by (simp add: pcs)
    next
      case False
      then show ?thesis using that only[OF False] by (simp add: pcs)
    qed
  qed
  moreover have "inv_turn s'"
  proof (rule turn_frame[OF t])
    show "inputLines s' = inputLines s" "counter s' = counter s" "console s' = console s"
      by (simp_all add: fr)
    fix j
    show "past_turn (wpc (threads s' j)) = past_turn (wpc (threads s j))"
      "printed (wpc (threads s' j)) = printed (wpc (threads s j))"
      by (simp_all add: pcs pk)
    show "in_turn (wpc (threads s' j)) \<Longrightarrow> in_turn (wpc (threads s j)) \<or> int j = counter s"
      by (simp add: pcs pk split: if_splits)
  qed
  moreover have "inv_mutex2 s'"
  proof (rule mutex2_step[OF x, of s' k T_unlock1 T_copy])
    show "wpc (threads s' j) = (if j = k then T_unlock1 else wpc (threads s j))" for j
      by (rule pcs)
    show "wpc (threads s k) = T_copy" by (rule pk)
    show "counter s' = counter s \<or> T_unlock1 = T_broadcast" by (simp add: fr)
    show "mutex2 s' = (if holds2 T_unlock1 = holds2 T_copy then mutex2 s else holds2 T_unlock1)"
      by (simp add: fr)
    show "\<not> mutex2 s" if "holds2 T_unlock1" "\<not> holds2 T_copy"
      using that by simp
    show "int k \<noteq> counter s" if "T_unlock1 = T_asleep"
      using that by simp
    show "T_copy \<noteq> T_broadcast" by simp
  qed
  ultimately show ?thesis by (simp add: inv_def)
qed

lemma step_T_unlock1:
  assumes "inv s" and pk: "wpc (threads s k) = T_unlock1" and "thread_step spurious k s = Some s'"
  shows "inv s'"
proof -
  from assms(1) have m: "inv_main s" and h: "inv_handoff s" and t: "inv_turn s"
    and x: "inv_mutex2 s" by (simp_all add: inv_def)
  have s': "s' = goto_pc k T_compute (s\<lparr>mutex1 := False\<rparr>)"
    using assms(3) pk by (simp add: thread_step_def Let_def)
  have kc: "Suc k = i_main s" "mutex1 s" "main_at s = M_test \<or> main_at s = M_lock1 \<or> main_at s = M_join"
    using handoff_newest[OF h, of k] pk by simp_all
  have only: "wpc (threads s j) \<noteq> T_copy \<and> wpc (threads s j) \<noteq> T_unlock1" if "j \<noteq> k" for j
    using handoff_newest[OF h, of j] kc(1) that by auto
  have pcs: "wpc (threads s' j) = (if j = k then T_compute else wpc (threads s j))" for j
    by (simp add: s' goto_pc_def)
  have fr: "inputLines s' = inputLines s" "main_at s' = main_at s" "i_main s' = i_main s"
    "mutex1 s' = False" "shared_line s' = shared_line s" "shared_id s' = shared_id s"
    "counter s' = counter s" "console s' = console s" "mutex2 s' = mutex2 s"
    "\<And>j. localID (threads s' j) = localID (threads s j)"
    "\<And>j. localLine (threads s' j) = localLine (threads s j)"
    by (simp_all add: s' goto_pc_def)
  have "main_at s \<noteq> M_set" "main_at s \<noteq> M_create"
    using kc(3) by auto
  then have "inv_main s'"
    using m unfolding inv_main_def by (simp add: fr)
  moreover have "inv_handoff s'"
  proof (rule inv_handoffI)
    fix j show "wpc (threads s' j) = T_idle \<longleftrightarrow> i_main s' \<le> j"
      using handoff_idle[OF h, of j] pk by (cases "j = k") (simp_all add: pcs fr)
    show "localID (threads s' j) = int j \<and> localLine (threads s' j) = inputLines s' ! j"
      if "wpc (threads s' j) \<noteq> T_idle" "wpc (threads s' j) \<noteq> T_copy"
      using that handoff_local[OF h, of j] pk by (cases "j = k") (simp_all add: pcs fr)
    have no: "\<not> (wpc (threads s' j) = T_copy \<or> wpc (threads s' j) = T_unlock1)"
    proof (cases "j = k")
      case True
      then show ?thesis by (simp add: pcs)
    next
      case False
      then show ?thesis using only[OF False] by (simp add: pcs)
    qed
    show "Suc j = i_main s' \<and> mutex1 s' \<and>
        (main_at s' = M_test \<or> main_at s' = M_lock1 \<or> main_at s' = M_join)"
      if "wpc (threads s' j) = T_copy \<or> wpc (threads s' j) = T_unlock1"
      using that no by simp
    show "shared_id s' = int j \<and> shared_line s' = inputLines s' ! j"
      if "wpc (threads s' j) = T_copy"
      using that no by simp
  qed
  moreover have "inv_turn s'"
  proof (rule turn_frame[OF t])
    show "inputLines s' = inputLines s" "counter s' = counter s" "console s' = console s"
      by (simp_all add: fr)
    fix j
    show "past_turn (wpc (threads s' j)) = past_turn (wpc (threads s j))"
      "printed (wpc (threads s' j)) = printed (wpc (threads s j))"
      by (simp_all add: pcs pk)
    show "in_turn (wpc (threads s' j)) \<Longrightarrow> in_turn (wpc (threads s j)) \<or> int j = counter s"
      by (simp add: pcs pk split: if_splits)
  qed
  moreover have "inv_mutex2 s'"
  proof (rule mutex2_step[OF x, of s' k T_compute T_unlock1])
    show "wpc (threads s' j) = (if j = k then T_compute else wpc (threads s j))" for j
      by (rule pcs)
    show "wpc (threads s k) = T_unlock1" by (rule pk)
    show "counter s' = counter s \<or> T_compute = T_broadcast" by (simp add: fr)
    show "mutex2 s' = (if holds2 T_compute = holds2 T_unlock1 then mutex2 s else holds2 T_compute)"
      by (simp add: fr)
    show "\<not> mutex2 s" if "holds2 T_compute" "\<not> holds2 T_unlock1"
      using that by simp
    show "int k \<noteq> counter s" if "T_compute = T_asleep"
      using that by simp
    show "T_unlock1 \<noteq> T_broadcast" by simp
  qed
  ultimately show ?thesis by (simp add: inv_def)
qed

lemma step_T_test_turn:
  assumes "inv s" and pk: "wpc (threads s k) = T_test" and "thread_step spurious k s = Some s'"
    and c: "int k = counter s"
  shows "inv s'"
proof -
  from assms(1) have m: "inv_main s" and h: "inv_handoff s" and t: "inv_turn s"
    and x: "inv_mutex2 s" by (simp_all add: inv_def)
  have own: "localID (threads s k) = int k" "localLine (threads s k) = inputLines s ! k"
    using inv_own[OF assms(1), of k] pk by simp_all
  have s': "s' = goto_pc k T_unlock2 s"
    using assms(3) pk own c by (simp add: thread_step_def Let_def)
  have fr: "inputLines s' = inputLines s" "main_at s' = main_at s" "i_main s' = i_main s"
    "mutex1 s' = mutex1 s" "shared_line s' = shared_line s" "shared_id s' = shared_id s"
    "\<And>j. localID (threads s' j) = localID (threads s j)"
    "\<And>j. localLine (threads s' j) = localLine (threads s j)"
    by (simp_all add: s' goto_pc_def)
  have pcs: "wpc (threads s' j) = (if j = k then T_unlock2 else wpc (threads s j))" for j
    by (simp add: s' goto_pc_def)
  have pe: "wpc (threads s' j) = wpc (threads s j)"
    if "early (wpc (threads s j)) \<or> early (wpc (threads s' j))" for j
    using that pk by (cases "j = k") (simp_all add: pcs)
  have "inv_main s'" "inv_handoff s'"
    by (rule late_frame(1)[OF m h fr pe], assumption, rule late_frame(2)[OF m h fr pe], assumption)
  moreover have "inv_turn s'"
  proof (rule turn_frame[OF t])
    show "inputLines s' = inputLines s" "counter s' = counter s" "console s' = console s"
      by (simp_all add: s' goto_pc_def)
    fix j
    show "past_turn (wpc (threads s' j)) = past_turn (wpc (threads s j))"
      "printed (wpc (threads s' j)) = printed (wpc (threads s j))"
      by (simp_all add: pcs pk)
    show "in_turn (wpc (threads s' j)) \<Longrightarrow> in_turn (wpc (threads s j)) \<or> int j = counter s"
      using c by (simp add: pcs pk split: if_splits)
  qed
  moreover have "inv_mutex2 s'"
  proof (rule mutex2_step[OF x, of s' k T_unlock2 T_test])
    show "wpc (threads s' j) = (if j = k then T_unlock2 else wpc (threads s j))" for j
      by (rule pcs)
    show "wpc (threads s k) = T_test" by (rule pk)
    show "counter s' = counter s \<or> T_unlock2 = T_broadcast" by (simp add: s' goto_pc_def)
    show "mutex2 s' = (if holds2 T_unlock2 = holds2 T_test then mutex2 s else holds2 T_unlock2)"
      by (simp add: s' goto_pc_def)
    show "\<not> mutex2 s" if "holds2 T_unlock2" "\<not> holds2 T_test"
      using that by simp
    show "int k \<noteq> counter s" if "T_unlock2 = T_asleep"
      using that by simp
    show "T_test \<noteq> T_broadcast" by simp
  qed
  ultimately show ?thesis by (simp add: inv_def)
qed

lemma step_T_test_wait:
  assumes "inv s" and pk: "wpc (threads s k) = T_test" and "thread_step spurious k s = Some s'"
    and c: "int k \<noteq> counter s"
  shows "inv s'"
proof -
  from assms(1) have m: "inv_main s" and h: "inv_handoff s" and t: "inv_turn s"
    and x: "inv_mutex2 s" by (simp_all add: inv_def)
  have own: "localID (threads s k) = int k" "localLine (threads s k) = inputLines s ! k"
    using inv_own[OF assms(1), of k] pk by simp_all
  have s': "s' = goto_pc k T_asleep (s\<lparr>mutex2 := False\<rparr>)"
    using assms(3) pk own c by (simp add: thread_step_def Let_def)
  have fr: "inputLines s' = inputLines s" "main_at s' = main_at s" "i_main s' = i_main s"
    "mutex1 s' = mutex1 s" "shared_line s' = shared_line s" "shared_id s' = shared_id s"
    "\<And>j. localID (threads s' j) = localID (threads s j)"
    "\<And>j. localLine (threads s' j) = localLine (threads s j)"
    by (simp_all add: s' goto_pc_def)
  have pcs: "wpc (threads s' j) = (if j = k then T_asleep else wpc (threads s j))" for j
    by (simp add: s' goto_pc_def)
  have pe: "wpc (threads s' j) = wpc (threads s j)"
    if "early (wpc (threads s j)) \<or> early (wpc (threads s' j))" for j
    using that pk by (cases "j = k") (simp_all add: pcs)
  have "inv_main s'" "inv_handoff s'"
    by (rule late_frame(1)[OF m h fr pe], assumption, rule late_frame(2)[OF m h fr pe], assumption)
  moreover have "inv_turn s'"
  proof (rule turn_frame[OF t])
    show "inputLines s' = inputLines s" "counter s' = counter s" "console s' = console s"
      by (simp_all add: s' goto_pc_def)
    fix j
    show "past_turn (wpc (threads s' j)) = past_turn (wpc (threads s j))"
      "printed (wpc (threads s' j)) = printed (wpc (threads s j))"
      by (simp_all add: pcs pk)
    show "in_turn (wpc (threads s' j)) \<Longrightarrow> in_turn (wpc (threads s j)) \<or> int j = counter s"
      using c by (simp add: pcs pk split: if_splits)
  qed
  moreover have "inv_mutex2 s'"
  proof (rule mutex2_step[OF x, of s' k T_asleep T_test])
    show "wpc (threads s' j) = (if j = k then T_asleep else wpc (threads s j))" for j
      by (rule pcs)
    show "wpc (threads s k) = T_test" by (rule pk)
    show "counter s' = counter s \<or> T_asleep = T_broadcast" by (simp add: s' goto_pc_def)
    show "mutex2 s' = (if holds2 T_asleep = holds2 T_test then mutex2 s else holds2 T_asleep)"
      by (simp add: s' goto_pc_def)
    show "\<not> mutex2 s" if "holds2 T_asleep" "\<not> holds2 T_test"
      using that by simp
    show "int k \<noteq> counter s" if "T_asleep = T_asleep"
      using that c by simp
    show "T_test \<noteq> T_broadcast" by simp
  qed
  ultimately show ?thesis by (simp add: inv_def)
qed

lemma step_T_print:
  assumes "inv s" and pk: "wpc (threads s k) = T_print" and "thread_step spurious k s = Some s'"
  shows "inv s'"
proof -
  from assms(1) have m: "inv_main s" and h: "inv_handoff s" and t: "inv_turn s"
    and x: "inv_mutex2 s" by (simp_all add: inv_def)
  have own: "localID (threads s k) = int k" "localLine (threads s k) = inputLines s ! k"
    using inv_own[OF assms(1), of k] pk by simp_all
  have c: "counter s = int k" using inv_its_turn[OF assms(1), of k] pk by simp
  have s': "s' = goto_pc k T_lock2_adv (s\<lparr>console := console s @ [(int k, inputLines s ! k)]\<rparr>)"
    using assms(3) pk own by (simp add: thread_step_def Let_def)
  have fr: "inputLines s' = inputLines s" "main_at s' = main_at s" "i_main s' = i_main s"
    "mutex1 s' = mutex1 s" "shared_line s' = shared_line s" "shared_id s' = shared_id s"
    "\<And>j. localID (threads s' j) = localID (threads s j)"
    "\<And>j. localLine (threads s' j) = localLine (threads s j)"
    by (simp_all add: s' goto_pc_def)
  have pcs: "wpc (threads s' j) = (if j = k then T_lock2_adv else wpc (threads s j))" for j
    by (simp add: s' goto_pc_def)
  have pe: "wpc (threads s' j) = wpc (threads s j)"
    if "early (wpc (threads s j)) \<or> early (wpc (threads s' j))" for j
    using that pk by (cases "j = k") (simp_all add: pcs)
  have "inv_main s'" "inv_handoff s'"
    by (rule late_frame(1)[OF m h fr pe], assumption, rule late_frame(2)[OF m h fr pe], assumption)
  moreover have "inv_turn s'"
    unfolding inv_turn_def
  proof (intro conjI allI)
    show "0 \<le> counter s'" by (simp add: s' goto_pc_def c)
    fix j show "past_turn (wpc (threads s' j)) \<longleftrightarrow> int j < counter s'"
      using t pk unfolding inv_turn_def by (cases "j = k") (simp_all add: s' goto_pc_def c)
    show "in_turn (wpc (threads s' j)) \<longrightarrow> int j = counter s'"
      using t pk unfolding inv_turn_def by (cases "j = k") (simp_all add: s' goto_pc_def c)
  next
    show "console s' =
      map (\<lambda>k. (int k, inputLines s' ! k)) [0..<nat (counter s')] @
      (if printed (wpc (threads s' (nat (counter s'))))
       then [(counter s', inputLines s' ! nat (counter s'))] else [])"
      using t unfolding inv_turn_def by (simp add: s' goto_pc_def c pk)
  qed
  moreover have "inv_mutex2 s'"
  proof (rule mutex2_step[OF x, of s' k T_lock2_adv T_print])
    show "wpc (threads s' j) = (if j = k then T_lock2_adv else wpc (threads s j))" for j
      by (rule pcs)
    show "wpc (threads s k) = T_print" by (rule pk)
    show "counter s' = counter s \<or> T_lock2_adv = T_broadcast" by (simp add: s' goto_pc_def)
    show "mutex2 s' = (if holds2 T_lock2_adv = holds2 T_print then mutex2 s else holds2 T_lock2_adv)"
      by (simp add: s' goto_pc_def)
    show "\<not> mutex2 s" if "holds2 T_lock2_adv" "\<not> holds2 T_print"
      using that by simp
    show "int k \<noteq> counter s" if "T_lock2_adv = T_asleep"
      using that by simp
    show "T_print \<noteq> T_broadcast" by simp
  qed
  ultimately show ?thesis by (simp add: inv_def)
qed

lemma step_T_incr:
  assumes "inv s" and pk: "wpc (threads s k) = T_incr" and "thread_step spurious k s = Some s'"
  shows "inv s'"
proof -
  from assms(1) have m: "inv_main s" and h: "inv_handoff s" and t: "inv_turn s"
    and x: "inv_mutex2 s" by (simp_all add: inv_def)
  have own: "localID (threads s k) = int k" "localLine (threads s k) = inputLines s ! k"
    using inv_own[OF assms(1), of k] pk by simp_all
  have c: "counter s = int k" using inv_its_turn[OF assms(1), of k] pk by simp
  have s': "s' = goto_pc k T_broadcast (s\<lparr>counter := counter s + 1\<rparr>)"
    using assms(3) pk by (simp add: thread_step_def Let_def)
  have tp: "past_turn (wpc (threads s j)) \<longleftrightarrow> int j < int k"
    and ti: "in_turn (wpc (threads s j)) \<Longrightarrow> j = k" for j
    using t unfolding inv_turn_def by (simp_all add: c)
  have nxt: "\<not> printed (wpc (threads s (Suc k)))"
    using ti[of "Suc k"] printed_in_turn[of "wpc (threads s (Suc k))"] by auto
  have nk: "nat (int k + 1) = Suc k" by simp
  have fr: "inputLines s' = inputLines s" "main_at s' = main_at s" "i_main s' = i_main s"
    "mutex1 s' = mutex1 s" "shared_line s' = shared_line s" "shared_id s' = shared_id s"
    "\<And>j. localID (threads s' j) = localID (threads s j)"
    "\<And>j. localLine (threads s' j) = localLine (threads s j)"
    by (simp_all add: s' goto_pc_def)
  have pcs: "wpc (threads s' j) = (if j = k then T_broadcast else wpc (threads s j))" for j
    by (simp add: s' goto_pc_def)
  have pe: "wpc (threads s' j) = wpc (threads s j)"
    if "early (wpc (threads s j)) \<or> early (wpc (threads s' j))" for j
    using that pk by (cases "j = k") (simp_all add: pcs)
  have "inv_main s'" "inv_handoff s'"
    by (rule late_frame(1)[OF m h fr pe], assumption, rule late_frame(2)[OF m h fr pe], assumption)
  moreover have "inv_turn s'"
    unfolding inv_turn_def
  proof (intro conjI allI)
    show "0 \<le> counter s'" by (simp add: s' goto_pc_def c)
    fix j show "past_turn (wpc (threads s' j)) \<longleftrightarrow> int j < counter s'"
    proof (cases "j = k")
      case True
      then show ?thesis by (simp add: s' goto_pc_def c)
    next
      case False
      then have "int j < int k + 1 \<longleftrightarrow> int j < int k" by linarith
      then show ?thesis using False tp[of j] by (simp add: s' goto_pc_def c)
    qed
    show "in_turn (wpc (threads s' j)) \<longrightarrow> int j = counter s'"
    proof (cases "j = k")
      case True
      then show ?thesis by (simp add: s' goto_pc_def c)
    next
      case False
      then have "\<not> in_turn (wpc (threads s j))" using ti[of j] by blast
      then show ?thesis using False by (simp add: s' goto_pc_def c)
    qed
  next
    show "console s' =
      map (\<lambda>k. (int k, inputLines s' ! k)) [0..<nat (counter s')] @
      (if printed (wpc (threads s' (nat (counter s'))))
       then [(counter s', inputLines s' ! nat (counter s'))] else [])"
      using t nxt unfolding inv_turn_def by (simp add: s' goto_pc_def c pk nk)
  qed
  moreover have "inv_mutex2 s'"
  proof (rule mutex2_step[OF x, of s' k T_broadcast T_incr])
    show "wpc (threads s' j) = (if j = k then T_broadcast else wpc (threads s j))" for j
      by (rule pcs)
    show "wpc (threads s k) = T_incr" by (rule pk)
    show "counter s' = counter s \<or> T_broadcast = T_broadcast" by (simp add: s' goto_pc_def)
    show "mutex2 s' = (if holds2 T_broadcast = holds2 T_incr then mutex2 s else holds2 T_broadcast)"
      by (simp add: s' goto_pc_def)
    show "\<not> mutex2 s" if "holds2 T_broadcast" "\<not> holds2 T_incr"
      using that by simp
    show "int k \<noteq> counter s" if "T_broadcast = T_asleep"
      using that by simp
    show "T_incr \<noteq> T_broadcast" by simp
  qed
  ultimately show ?thesis by (simp add: inv_def)
qed

lemma step_T_broadcast:
  assumes "inv s" and pk: "wpc (threads s k) = T_broadcast" and "thread_step spurious k s = Some s'"
  shows "inv s'"
proof -
  from assms(1) have m: "inv_main s" and h: "inv_handoff s" and t: "inv_turn s"
    and x: "inv_mutex2 s" by (simp_all add: inv_def)
  have own: "localID (threads s k) = int k" "localLine (threads s k) = inputLines s ! k"
    using inv_own[OF assms(1), of k] pk by simp_all
  have s': "s' = goto_pc k T_unlock2_adv (wake_all s)"
    using assms(3) pk by (simp add: thread_step_def Let_def)
  have fr: "inputLines s' = inputLines s" "main_at s' = main_at s" "i_main s' = i_main s"
    "mutex1 s' = mutex1 s" "shared_line s' = shared_line s" "shared_id s' = shared_id s"
    "\<And>j. localID (threads s' j) = localID (threads s j)"
    "\<And>j. localLine (threads s' j) = localLine (threads s j)"
    by (simp_all add: s' goto_pc_def wake_all_def)
  have pcs: "wpc (threads s' j) =
      (if j = k then T_unlock2_adv
       else if wpc (threads s j) = T_asleep then T_reacquire else wpc (threads s j))" for j
    by (simp add: s' goto_pc_def wake_all_def)
  have pe: "wpc (threads s' j) = wpc (threads s j)"
    if "early (wpc (threads s j)) \<or> early (wpc (threads s' j))" for j
    using that pk by (cases "j = k"; cases "wpc (threads s j) = T_asleep") (simp_all add: pcs)
  have "inv_main s'" "inv_handoff s'"
    by (rule late_frame(1)[OF m h fr pe], assumption, rule late_frame(2)[OF m h fr pe], assumption)
  moreover have "inv_turn s'"
  proof (rule turn_frame[OF t])
    show "inputLines s' = inputLines s" "counter s' = counter s" "console s' = console s"
      by (simp_all add: s' goto_pc_def wake_all_def)
    fix j
    show "past_turn (wpc (threads s' j)) = past_turn (wpc (threads s j))"
      "printed (wpc (threads s' j)) = printed (wpc (threads s j))"
      by (cases "j = k"; cases "wpc (threads s j) = T_asleep"; simp add: pcs pk)+
    show "in_turn (wpc (threads s' j)) \<Longrightarrow> in_turn (wpc (threads s j)) \<or> int j = counter s"
      by (cases "j = k"; cases "wpc (threads s j) = T_asleep") (simp_all add: pcs pk)
  qed
  moreover have "inv_mutex2 s'"
  proof (rule mutex2_wake[OF x])
    show "mutex2 s' = mutex2 s" by (simp add: s' goto_pc_def wake_all_def)
    fix j
    show "holds2 (wpc (threads s' j)) = holds2 (wpc (threads s j))"
      by (cases "j = k"; cases "wpc (threads s j) = T_asleep") (simp_all add: pcs pk)
    show "wpc (threads s' j) \<noteq> T_asleep"
      by (cases "j = k"; cases "wpc (threads s j) = T_asleep") (simp_all add: pcs pk)
  qed
  ultimately show ?thesis by (simp add: inv_def)
qed

lemma thread_step_inv:
  assumes "inv s" "thread_step spurious k s = Some s'"
  shows "inv s'"
proof (cases "wpc (threads s k)")
  case T_idle
  then show ?thesis using assms(2) by (simp add: thread_step_def)
next
  case T_done
  then show ?thesis using assms(2) by (simp add: thread_step_def)
next
  case T_test
  then show ?thesis
    using step_T_test_turn[OF assms(1) T_test assms(2)] step_T_test_wait[OF assms(1) T_test assms(2)]
    by blast
qed (erule step_T_copy[OF assms(1) _ assms(2)] step_T_unlock1[OF assms(1) _ assms(2)]
      step_T_compute[OF assms(1) _ assms(2)] step_T_lock2[OF assms(1) _ assms(2)]
      step_T_asleep[OF assms(1) _ assms(2)] step_T_reacquire[OF assms(1) _ assms(2)]
      step_T_unlock2[OF assms(1) _ assms(2)] step_T_print[OF assms(1) _ assms(2)]
      step_T_lock2_adv[OF assms(1) _ assms(2)] step_T_incr[OF assms(1) _ assms(2)]
      step_T_broadcast[OF assms(1) _ assms(2)] step_T_unlock2_adv[OF assms(1) _ assms(2)])+

lemma step_inv: "inv s \<Longrightarrow> step spurious a s = Some s' \<Longrightarrow> inv s'"
  by (cases a) (auto simp: step_def intro: main_step_inv thread_step_inv)

lemma run_inv: "inv s \<Longrightarrow> run spurious schedule s = Some s' \<Longrightarrow> inv s'"
proof (induction schedule arbitrary: s)
  case Nil
  then show ?case by simp
next
  case (Cons a schedule)
  show ?case
  proof (cases "step spurious a s")
    case None
    then show ?thesis using Cons.prems(2) by simp
  next
    case (Some s1)
    then have "inv s1" using Cons.prems(1) step_inv by blast
    then show ?thesis using Cons.IH[of s1] Cons.prems(2) Some by simp
  qed
qed

lemma reachable_inv: "run spurious schedule (initial inputs) = Some s \<Longrightarrow> inv s"
  using run_inv[OF inv_initial] by blast

subsection \<open>The console\<close>

lemma main_step_inputLines: "main_step s = Some s' \<Longrightarrow> inputLines s' = inputLines s"
  by (cases "main_at s") (auto simp: main_step_def split: if_splits)

lemma inputLines_goto_pc: "inputLines (goto_pc k p s) = inputLines s"
  by (simp add: goto_pc_def)

lemma inputLines_wake_all: "inputLines (wake_all s) = inputLines s"
  by (simp add: wake_all_def)

lemma thread_step_inputLines:
  assumes "thread_step spurious k s = Some s'"
  shows "inputLines s' = inputLines s"
proof -
  have "case thread_step spurious k s of None \<Rightarrow> True | Some s' \<Rightarrow> inputLines s' = inputLines s"
    by (cases "wpc (threads s k)")
      (simp_all add: thread_step_def Let_def inputLines_goto_pc inputLines_wake_all)
  then show ?thesis using assms by simp
qed

lemma step_inputLines: "step spurious a s = Some s' \<Longrightarrow> inputLines s' = inputLines s"
  by (cases a) (auto simp: step_def intro: main_step_inputLines thread_step_inputLines)

lemma run_inputLines: "run spurious schedule s = Some s' \<Longrightarrow> inputLines s' = inputLines s"
proof (induction schedule arbitrary: s)
  case Nil
  then show ?case by simp
next
  case (Cons a schedule)
  show ?case
  proof (cases "step spurious a s")
    case None
    then show ?thesis using Cons.prems by simp
  next
    case (Some s1)
    then have "inputLines s' = inputLines s1" using Cons.IH[of s1] Cons.prems by simp
    then show ?thesis using step_inputLines[OF Some] by simp
  qed
qed

lemma created_less:
  assumes "inv s" "wpc (threads s k) \<noteq> T_idle"
  shows "k < length (inputLines s)"
proof -
  have "\<not> i_main s \<le> k"
    using assms handoff_idle[of s k] by (simp add: inv_def)
  moreover have "i_main s \<le> length (inputLines s)"
    using assms(1) by (simp add: inv_def inv_main_def)
  ultimately show ?thesis by simp
qed

lemma counter_le:
  assumes "inv s"
  shows "nat (counter s) \<le> length (inputLines s)"
proof (cases "nat (counter s)")
  case 0
  then show ?thesis by simp
next
  case (Suc n)
  then have "int n < counter s" by linarith
  then have "past_turn (wpc (threads s n))"
    using assms by (simp add: inv_def inv_turn_def)
  then have "wpc (threads s n) \<noteq> T_idle" by auto
  then have "n < length (inputLines s)" using assms created_less by blast
  then show ?thesis using Suc by simp
qed

lemma upt_prefix: "m \<le> n \<Longrightarrow> prefix [0..<m] [0..<n]"
  by (metis le_add_diff_inverse prefixI upt_add_eq_append zero_le)

lemma console_prefix:
  assumes "inv s"
  shows "prefix (console s) (in_input_order (inputLines s))"
proof -
  define f where "f = (\<lambda>k. (int k, inputLines s ! k))"
  define c where "c = nat (counter s)"
  have t: "inv_turn s" using assms by (simp add: inv_def)
  have c0: "counter s = int c" using t by (simp add: c_def inv_turn_def)
  have con: "console s = map f [0..<c] @ (if printed (wpc (threads s c)) then [f c] else [])"
    using t unfolding inv_turn_def f_def c_def by simp
  have ord: "in_input_order (inputLines s) = map f [0..<length (inputLines s)]"
    by (simp add: in_input_order_def f_def)
  show ?thesis
  proof (cases "printed (wpc (threads s c))")
    case True
    then have "wpc (threads s c) \<noteq> T_idle" by auto
    then have "Suc c \<le> length (inputLines s)" using assms created_less[of s c] by simp
    then have "prefix (map f [0..<Suc c]) (map f [0..<length (inputLines s)])"
      by (intro map_mono_prefix upt_prefix)
    moreover have "console s = map f [0..<Suc c]" using con True by simp
    ultimately show ?thesis by (simp only: ord)
  next
    case False
    have "c \<le> length (inputLines s)" using counter_le[OF assms] by (simp add: c_def)
    then have "prefix (map f [0..<c]) (map f [0..<length (inputLines s)])"
      by (intro map_mono_prefix upt_prefix)
    moreover have "console s = map f [0..<c]" using con False by simp
    ultimately show ?thesis by (simp only: ord)
  qed
qed

lemma console_finished:
  assumes "inv s" "finished s"
  shows "console s = in_input_order (inputLines s)"
proof -
  define n where "n = length (inputLines s)"
  have t: "inv_turn s" and h: "inv_handoff s" and m: "inv_main s"
    using assms(1) by (simp_all add: inv_def)
  have i: "i_main s = n"
    using m assms(2) by (simp add: inv_main_def finished_def n_def)
  have dn: "wpc (threads s k) = T_done" if "k < n" for k
    using assms(2) that by (simp add: finished_def list_all_iff n_def)
  have idle: "wpc (threads s n) = T_idle"
    using handoff_idle[OF h, of n] i by simp
  have "\<not> int n < counter s"
    using t idle unfolding inv_turn_def by (metis past_turn_simps(1))
  moreover have "int k < counter s" if "k < n" for k
    using t dn[OF that] unfolding inv_turn_def by (metis past_turn_simps(15))
  then have "int n \<le> counter s"
    using t by (cases n) (simp_all add: inv_turn_def, force)
  ultimately have c: "counter s = int n" by simp
  show ?thesis
    using t idle unfolding inv_turn_def by (simp add: c in_input_order_def n_def[symmetric])
qed

lemma in_input_order_indices: "map fst (in_input_order inputs) = map int [0..<length inputs]"
  by (simp add: in_input_order_def comp_def)

subsection \<open>No deadlock\<close>

text \<open>
  In a reachable state that is not the end, \<^verbatim>\<open>main\<close> or some thread can step: a thread
  that waits for a mutex waits for a holder that can step, and a thread that sleeps in
  its turn is woken by the pending broadcast.
\<close>

lemma holder_enabled: "holds2 (wpc (threads s j)) \<Longrightarrow> thread_step spurious j s \<noteq> None"
  by (cases "wpc (threads s j)") (simp_all add: thread_step_def Let_def)

lemma awake_enabled:
  assumes "inv_mutex2 s" "wpc (threads s k) \<noteq> T_idle" "wpc (threads s k) \<noteq> T_done"
    "wpc (threads s k) \<noteq> T_asleep"
  shows "\<exists>j. thread_step spurious j s \<noteq> None"
proof (cases "mutex2 s")
  case True
  then obtain j where "holds2 (wpc (threads s j))"
    using assms(1) unfolding inv_mutex2_def by blast
  then show ?thesis using holder_enabled by blast
next
  case False
  then have "thread_step spurious k s \<noteq> None"
    using assms(2-4) by (cases "wpc (threads s k)") (simp_all add: thread_step_def Let_def)
  then show ?thesis by blast
qed

lemma thread_enabled:
  assumes "inv s" "wpc (threads s k) \<noteq> T_idle" "wpc (threads s k) \<noteq> T_done"
    "int k = counter s \<or> wpc (threads s k) \<noteq> T_asleep"
  shows "\<exists>j. thread_step spurious j s \<noteq> None"
proof (cases "wpc (threads s k) = T_asleep")
  case True
  then obtain j where "wpc (threads s j) = T_broadcast"
    using assms(1,4) unfolding inv_def inv_mutex2_def by blast
  then have "holds2 (wpc (threads s j))" by simp
  then show ?thesis using holder_enabled by blast
next
  case False
  then show ?thesis using assms awake_enabled[of s k] by (simp add: inv_def)
qed

lemma no_deadlock:
  assumes "inv s" "\<not> finished s"
  shows "\<exists>a. step spurious a s \<noteq> None"
proof -
  have t: "inv_turn s" and h: "inv_handoff s" and m: "inv_main s"
    using assms(1) by (simp_all add: inv_def)
  have thr: "\<exists>a. step spurious a s \<noteq> None" if "thread_step spurious j s \<noteq> None" for j
    using that by (intro exI[of _ "Thread j"]) (simp add: step_def)
  have mn: "\<exists>a. step spurious a s \<noteq> None" if "main_step s \<noteq> None"
    using that by (intro exI[of _ Main_thread]) (simp add: step_def)
  show ?thesis
  proof (cases "main_at s")
    case M_test
    then show ?thesis by (intro mn) (simp add: main_step_def)
  next
    case M_set
    then show ?thesis by (intro mn) (simp add: main_step_def)
  next
    case M_create
    then show ?thesis by (intro mn) (simp add: main_step_def)
  next
    case M_lock1
    show ?thesis
    proof (cases "mutex1 s")
      case False
      then show ?thesis using M_lock1 by (intro mn) (simp add: main_step_def)
    next
      case True
      then have "wpc (threads s (i_main s - 1)) = T_copy \<or> wpc (threads s (i_main s - 1)) = T_unlock1"
        using m M_lock1 by (simp add: inv_main_def)
      then have "thread_step spurious (i_main s - 1) s \<noteq> None"
        by (auto simp: thread_step_def Let_def)
      then show ?thesis by (rule thr)
    qed
  next
    case M_join
    define n where "n = length (inputLines s)"
    define c where "c = nat (counter s)"
    have c0: "counter s = int c" using t by (simp add: c_def inv_turn_def)
    have i: "i_main s = n" using m M_join by (simp add: inv_main_def n_def)
    obtain k where k: "k < n" "wpc (threads s k) \<noteq> T_done"
      using assms(2) M_join by (auto simp: finished_def list_all_iff n_def)
    have "\<exists>j. thread_step spurious j s \<noteq> None"
    proof (cases "c < n")
      case True
      then have "wpc (threads s c) \<noteq> T_idle"
        using handoff_idle[OF h, of c] i by simp
      moreover have "\<not> past_turn (wpc (threads s c))"
        using t c0 unfolding inv_turn_def by simp
      then have "wpc (threads s c) \<noteq> T_done" by auto
      ultimately show ?thesis using thread_enabled[OF assms(1), of c] c0 by simp
    next
      case False
      then have "int k < counter s" using k(1) c0 by simp
      then have "past_turn (wpc (threads s k))"
        using t unfolding inv_turn_def by simp
      then have "wpc (threads s k) \<noteq> T_idle" "wpc (threads s k) \<noteq> T_asleep" by auto
      then show ?thesis using thread_enabled[OF assms(1), of k] k(2) by simp
    qed
    then show ?thesis using thr by blast
  qed
qed

subsection \<open>Termination without spurious wake-ups\<close>

lemma before_turn_simps [simp]:
  "before_turn T_idle" "before_turn T_copy" "before_turn T_unlock1" "before_turn T_compute"
  "before_turn T_lock2" "before_turn T_test" "before_turn T_asleep" "before_turn T_reacquire"
  "\<not> before_turn T_unlock2" "\<not> before_turn T_print" "\<not> before_turn T_lock2_adv"
  "\<not> before_turn T_incr" "\<not> before_turn T_broadcast" "\<not> before_turn T_unlock2_adv"
  "\<not> before_turn T_done"
  by (simp_all add: before_turn_def)

lemma sum_less:
  fixes f g :: "nat \<Rightarrow> nat"
  assumes "k < n" "\<And>j. j < n \<Longrightarrow> f j \<le> g j" "f k < g k"
  shows "(\<Sum>j<n. f j) < (\<Sum>j<n. g j)"
  by (rule sum_strict_mono_ex1) (use assms in auto)

lemma sum_le:
  fixes f g :: "nat \<Rightarrow> nat"
  assumes "\<And>j. j < n \<Longrightarrow> f j \<le> g j"
  shows "(\<Sum>j<n. f j) \<le> (\<Sum>j<n. g j)"
  by (rule sum_mono) (use assms in auto)

lemma plain_step_decreases:
  assumes k: "k < length (inputLines s)"
    and fr: "inputLines s' = inputLines s" "main_at s' = main_at s" "i_main s' = i_main s"
      "counter s' = counter s"
    and pcs: "\<And>j. wpc (threads s' j) = (if j = k then q else wpc (threads s j))"
    and p: "wpc (threads s k) = p" "p \<noteq> T_broadcast" "q \<noteq> T_broadcast"
    and dec: "pc_rank q < pc_rank p" "before_turn q \<Longrightarrow> before_turn p"
  shows "steps_left s' < steps_left s"
proof -
  have "wpc (threads s' j) = T_broadcast \<longleftrightarrow> wpc (threads s j) = T_broadcast" for j
    using p by (cases "j = k") (simp_all add: pcs)
  then have b: "broadcasting s' = broadcasting s" by (simp add: broadcasting_def)
  have w: "wakes_left j s' = wakes_left j s" for j
    by (simp add: wakes_left_def b fr)
  have other: "thread_rank j s' = thread_rank j s" if "j \<noteq> k" for j
    using that by (simp add: thread_rank_def pcs w)
  have own: "thread_rank k s' < thread_rank k s"
    using dec p(1) by (cases "before_turn q") (simp_all add: thread_rank_def pcs w)
  have "(\<Sum>j<length (inputLines s). thread_rank j s') < (\<Sum>j<length (inputLines s). thread_rank j s)"
  proof (rule sum_less[OF k])
    show "thread_rank j s' \<le> thread_rank j s" for j
      using other[of j] own by (cases "j = k") simp_all
    show "thread_rank k s' < thread_rank k s" by (rule own)
  qed
  moreover have "main_rank s' = main_rank s" by (simp only: main_rank_def fr)
  ultimately show ?thesis by (simp add: steps_left_def fr)
qed

lemma thread_rank_frame:
  "threads s' = threads s \<Longrightarrow> counter s' = counter s \<Longrightarrow> thread_rank j s' = thread_rank j s"
  by (simp add: thread_rank_def wakes_left_def broadcasting_def)

lemma main_step_decreases:
  assumes "inv s" "main_step s = Some s'"
  shows "steps_left s' < steps_left s"
proof -
  have m: "inv_main s" using assms(1) by (simp add: inv_def)
  show ?thesis
  proof (cases "main_at s")
    case M_test
    then have s': "s' = s\<lparr>main_at := (if i_main s < length (inputLines s) then M_lock1 else M_join)\<rparr>"
      using assms(2) by (simp add: main_step_def)
    have "thread_rank j s' = thread_rank j s" for j
      by (rule thread_rank_frame) (simp_all add: s')
    moreover have "main_rank s' < main_rank s"
      using M_test by (simp add: main_rank_def s')
    ultimately show ?thesis by (simp add: steps_left_def s')
  next
    case M_lock1
    then have s': "s' = s\<lparr>mutex1 := True, main_at := M_set\<rparr>"
      using assms(2) by (simp_all add: main_step_def split: if_splits)
    have lt: "i_main s < length (inputLines s)" using m M_lock1 by (simp add: inv_main_def)
    have "thread_rank j s' = thread_rank j s" for j
      by (rule thread_rank_frame) (simp_all add: s')
    moreover have "main_rank s' < main_rank s"
      using M_lock1 lt by (simp add: main_rank_def s')
    ultimately show ?thesis by (simp add: steps_left_def s')
  next
    case M_set
    then have s': "s' = s\<lparr>shared_line := inputLines s ! i_main s, shared_id := int (i_main s),
                          main_at := M_create\<rparr>"
      using assms(2) by (simp add: main_step_def)
    have lt: "i_main s < length (inputLines s)" using m M_set by (simp add: inv_main_def)
    have "thread_rank j s' = thread_rank j s" for j
      by (rule thread_rank_frame) (simp_all add: s')
    moreover have "main_rank s' < main_rank s"
      using M_set lt by (simp add: main_rank_def s')
    ultimately show ?thesis by (simp add: steps_left_def s')
  next
    case M_create
    then have s': "s' = s\<lparr>threads := (threads s)(i_main s := (threads s (i_main s))\<lparr>wpc := T_copy\<rparr>),
                          i_main := i_main s + 1, main_at := M_test\<rparr>"
      using assms(2) by (simp add: main_step_def)
    have lt: "i_main s < length (inputLines s)" using m M_create by (simp add: inv_main_def)
    have idle: "wpc (threads s (i_main s)) = T_idle"
      using assms(1) handoff_idle[of s "i_main s"] by (simp add: inv_def)
    have pcs: "wpc (threads s' j) = (if j = i_main s then T_copy else wpc (threads s j))" for j
      by (simp add: s')
    have "wpc (threads s' j) = T_broadcast \<longleftrightarrow> wpc (threads s j) = T_broadcast" for j
      using idle by (cases "j = i_main s") (simp_all add: pcs)
    then have b: "broadcasting s' = broadcasting s" by (simp add: broadcasting_def)
    have w: "wakes_left j s' = wakes_left j s" for j
      by (simp add: wakes_left_def b) (simp add: s')
    have le: "thread_rank j s' \<le> thread_rank j s" for j
      using idle by (cases "j = i_main s") (simp_all add: thread_rank_def pcs w)
    have "(\<Sum>j<length (inputLines s). thread_rank j s') \<le> (\<Sum>j<length (inputLines s). thread_rank j s)"
      by (rule sum_le) (rule le)
    moreover have "main_rank s' < main_rank s"
      using M_create lt by (simp add: main_rank_def s')
    moreover have "inputLines s' = inputLines s" by (simp add: s')
    ultimately show ?thesis by (simp add: steps_left_def)
  next
    case M_join
    then show ?thesis using assms(2) by (simp add: main_step_def)
  qed
qed

lemma decreases_T_copy:
  assumes "inv s" and pk: "wpc (threads s k) = T_copy" and "thread_step spurious k s = Some s'"
  shows "steps_left s' < steps_left s"
proof -
  have s': "s' = s\<lparr>threads := (threads s)(k := (threads s k)
      \<lparr>wpc := T_unlock1, localID := shared_id s, localLine := shared_line s\<rparr>)\<rparr>"
    using assms(3) pk by (simp add: thread_step_def Let_def)
  have k: "k < length (inputLines s)"
    using created_less[OF assms(1), of k] pk by simp
  show ?thesis
  proof (rule plain_step_decreases[OF k, of s' T_unlock1 T_copy])
    show "inputLines s' = inputLines s" "main_at s' = main_at s" "i_main s' = i_main s"
      "counter s' = counter s"
      by (simp_all add: s')
    show "wpc (threads s' j) = (if j = k then T_unlock1 else wpc (threads s j))" for j
      by (simp add: s')
    show "wpc (threads s k) = T_copy" by (rule pk)
  qed simp_all
qed

lemma decreases_T_unlock1:
  assumes "inv s" and pk: "wpc (threads s k) = T_unlock1" and "thread_step spurious k s = Some s'"
  shows "steps_left s' < steps_left s"
proof -
  have s': "s' = goto_pc k T_compute (s\<lparr>mutex1 := False\<rparr>)"
    using assms(3) pk by (simp add: thread_step_def Let_def)
  have k: "k < length (inputLines s)"
    using created_less[OF assms(1), of k] pk by simp
  show ?thesis
  proof (rule plain_step_decreases[OF k, of s' T_compute T_unlock1])
    show "inputLines s' = inputLines s" "main_at s' = main_at s" "i_main s' = i_main s"
      "counter s' = counter s"
      by (simp_all add: s' goto_pc_def)
    show "wpc (threads s' j) = (if j = k then T_compute else wpc (threads s j))" for j
      by (simp add: s' goto_pc_def)
    show "wpc (threads s k) = T_unlock1" by (rule pk)
  qed simp_all
qed

lemma decreases_T_compute:
  assumes "inv s" and pk: "wpc (threads s k) = T_compute" and "thread_step spurious k s = Some s'"
  shows "steps_left s' < steps_left s"
proof -
  have s': "s' = goto_pc k T_lock2 s"
    using assms(3) pk by (simp add: thread_step_def Let_def)
  have k: "k < length (inputLines s)"
    using created_less[OF assms(1), of k] pk by simp
  show ?thesis
  proof (rule plain_step_decreases[OF k, of s' T_lock2 T_compute])
    show "inputLines s' = inputLines s" "main_at s' = main_at s" "i_main s' = i_main s"
      "counter s' = counter s"
      by (simp_all add: s' goto_pc_def)
    show "wpc (threads s' j) = (if j = k then T_lock2 else wpc (threads s j))" for j
      by (simp add: s' goto_pc_def)
    show "wpc (threads s k) = T_compute" by (rule pk)
  qed simp_all
qed

lemma decreases_T_lock2:
  assumes "inv s" and pk: "wpc (threads s k) = T_lock2" and "thread_step spurious k s = Some s'"
  shows "steps_left s' < steps_left s"
proof -
  have s': "s' = goto_pc k T_test (s\<lparr>mutex2 := True\<rparr>)"
    using assms(3) pk by (simp add: thread_step_def Let_def split: if_splits)
  have k: "k < length (inputLines s)"
    using created_less[OF assms(1), of k] pk by simp
  show ?thesis
  proof (rule plain_step_decreases[OF k, of s' T_test T_lock2])
    show "inputLines s' = inputLines s" "main_at s' = main_at s" "i_main s' = i_main s"
      "counter s' = counter s"
      by (simp_all add: s' goto_pc_def)
    show "wpc (threads s' j) = (if j = k then T_test else wpc (threads s j))" for j
      by (simp add: s' goto_pc_def)
    show "wpc (threads s k) = T_lock2" by (rule pk)
  qed simp_all
qed

lemma decreases_T_reacquire:
  assumes "inv s" and pk: "wpc (threads s k) = T_reacquire" and "thread_step spurious k s = Some s'"
  shows "steps_left s' < steps_left s"
proof -
  have s': "s' = goto_pc k T_test (s\<lparr>mutex2 := True\<rparr>)"
    using assms(3) pk by (simp add: thread_step_def Let_def split: if_splits)
  have k: "k < length (inputLines s)"
    using created_less[OF assms(1), of k] pk by simp
  show ?thesis
  proof (rule plain_step_decreases[OF k, of s' T_test T_reacquire])
    show "inputLines s' = inputLines s" "main_at s' = main_at s" "i_main s' = i_main s"
      "counter s' = counter s"
      by (simp_all add: s' goto_pc_def)
    show "wpc (threads s' j) = (if j = k then T_test else wpc (threads s j))" for j
      by (simp add: s' goto_pc_def)
    show "wpc (threads s k) = T_reacquire" by (rule pk)
  qed simp_all
qed

lemma decreases_T_unlock2:
  assumes "inv s" and pk: "wpc (threads s k) = T_unlock2" and "thread_step spurious k s = Some s'"
  shows "steps_left s' < steps_left s"
proof -
  have s': "s' = goto_pc k T_print (s\<lparr>mutex2 := False\<rparr>)"
    using assms(3) pk by (simp add: thread_step_def Let_def)
  have k: "k < length (inputLines s)"
    using created_less[OF assms(1), of k] pk by simp
  show ?thesis
  proof (rule plain_step_decreases[OF k, of s' T_print T_unlock2])
    show "inputLines s' = inputLines s" "main_at s' = main_at s" "i_main s' = i_main s"
      "counter s' = counter s"
      by (simp_all add: s' goto_pc_def)
    show "wpc (threads s' j) = (if j = k then T_print else wpc (threads s j))" for j
      by (simp add: s' goto_pc_def)
    show "wpc (threads s k) = T_unlock2" by (rule pk)
  qed simp_all
qed

lemma decreases_T_print:
  assumes "inv s" and pk: "wpc (threads s k) = T_print" and "thread_step spurious k s = Some s'"
  shows "steps_left s' < steps_left s"
proof -
  have s': "s' = goto_pc k T_lock2_adv (s\<lparr>console := console s @ [(localID (threads s k), localLine (threads s k))]\<rparr>)"
    using assms(3) pk by (simp add: thread_step_def Let_def)
  have k: "k < length (inputLines s)"
    using created_less[OF assms(1), of k] pk by simp
  show ?thesis
  proof (rule plain_step_decreases[OF k, of s' T_lock2_adv T_print])
    show "inputLines s' = inputLines s" "main_at s' = main_at s" "i_main s' = i_main s"
      "counter s' = counter s"
      by (simp_all add: s' goto_pc_def)
    show "wpc (threads s' j) = (if j = k then T_lock2_adv else wpc (threads s j))" for j
      by (simp add: s' goto_pc_def)
    show "wpc (threads s k) = T_print" by (rule pk)
  qed simp_all
qed

lemma decreases_T_lock2_adv:
  assumes "inv s" and pk: "wpc (threads s k) = T_lock2_adv" and "thread_step spurious k s = Some s'"
  shows "steps_left s' < steps_left s"
proof -
  have s': "s' = goto_pc k T_incr (s\<lparr>mutex2 := True\<rparr>)"
    using assms(3) pk by (simp add: thread_step_def Let_def split: if_splits)
  have k: "k < length (inputLines s)"
    using created_less[OF assms(1), of k] pk by simp
  show ?thesis
  proof (rule plain_step_decreases[OF k, of s' T_incr T_lock2_adv])
    show "inputLines s' = inputLines s" "main_at s' = main_at s" "i_main s' = i_main s"
      "counter s' = counter s"
      by (simp_all add: s' goto_pc_def)
    show "wpc (threads s' j) = (if j = k then T_incr else wpc (threads s j))" for j
      by (simp add: s' goto_pc_def)
    show "wpc (threads s k) = T_lock2_adv" by (rule pk)
  qed simp_all
qed

lemma decreases_T_unlock2_adv:
  assumes "inv s" and pk: "wpc (threads s k) = T_unlock2_adv" and "thread_step spurious k s = Some s'"
  shows "steps_left s' < steps_left s"
proof -
  have s': "s' = goto_pc k T_done (s\<lparr>mutex2 := False\<rparr>)"
    using assms(3) pk by (simp add: thread_step_def Let_def)
  have k: "k < length (inputLines s)"
    using created_less[OF assms(1), of k] pk by simp
  show ?thesis
  proof (rule plain_step_decreases[OF k, of s' T_done T_unlock2_adv])
    show "inputLines s' = inputLines s" "main_at s' = main_at s" "i_main s' = i_main s"
      "counter s' = counter s"
      by (simp_all add: s' goto_pc_def)
    show "wpc (threads s' j) = (if j = k then T_done else wpc (threads s j))" for j
      by (simp add: s' goto_pc_def)
    show "wpc (threads s k) = T_unlock2_adv" by (rule pk)
  qed simp_all
qed

lemma decreases_T_test:
  assumes "inv s" and pk: "wpc (threads s k) = T_test" and "thread_step spurious k s = Some s'"
  shows "steps_left s' < steps_left s"
proof -
  have k: "k < length (inputLines s)"
    using created_less[OF assms(1), of k] pk by simp
  show ?thesis
  proof (cases "localID (threads s k) \<noteq> counter s")
    case True
    then have s': "s' = goto_pc k T_asleep (s\<lparr>mutex2 := False\<rparr>)"
      using assms(3) pk by (simp add: thread_step_def Let_def)
    show ?thesis
    proof (rule plain_step_decreases[OF k, of s' T_asleep T_test])
      show "inputLines s' = inputLines s" "main_at s' = main_at s" "i_main s' = i_main s"
        "counter s' = counter s"
        by (simp_all add: s' goto_pc_def)
      show "wpc (threads s' j) = (if j = k then T_asleep else wpc (threads s j))" for j
        by (simp add: s' goto_pc_def)
      show "wpc (threads s k) = T_test" by (rule pk)
    qed simp_all
  next
    case False
    then have s': "s' = goto_pc k T_unlock2 s"
      using assms(3) pk by (simp add: thread_step_def Let_def)
    show ?thesis
    proof (rule plain_step_decreases[OF k, of s' T_unlock2 T_test])
      show "inputLines s' = inputLines s" "main_at s' = main_at s" "i_main s' = i_main s"
        "counter s' = counter s"
        by (simp_all add: s' goto_pc_def)
      show "wpc (threads s' j) = (if j = k then T_unlock2 else wpc (threads s j))" for j
        by (simp add: s' goto_pc_def)
      show "wpc (threads s k) = T_test" by (rule pk)
    qed simp_all
  qed
qed

lemma only_holder:
  assumes "inv s" "holds2 (wpc (threads s k))" "j \<noteq> k"
  shows "\<not> holds2 (wpc (threads s j))"
  using assms unfolding inv_def inv_mutex2_def by blast

lemma decreases_T_incr:
  assumes "inv s" and pk: "wpc (threads s k) = T_incr" and "thread_step spurious k s = Some s'"
  shows "steps_left s' < steps_left s"
proof -
  have s': "s' = goto_pc k T_broadcast (s\<lparr>counter := counter s + 1\<rparr>)"
    using assms(3) pk by (simp add: thread_step_def Let_def)
  have k: "k < length (inputLines s)"
    using created_less[OF assms(1), of k] pk by simp
  have c: "counter s = int k" using inv_its_turn[OF assms(1), of k] pk by simp
  have t: "inv_turn s" using assms(1) by (simp add: inv_def)
  have pcs: "wpc (threads s' j) = (if j = k then T_broadcast else wpc (threads s j))" for j
    by (simp add: s' goto_pc_def)
  have "wpc (threads s j) \<noteq> T_broadcast" for j
  proof (cases "j = k")
    case True
    then show ?thesis using pk by simp
  next
    case False
    then have "\<not> holds2 (wpc (threads s j))"
      using only_holder[OF assms(1), of k j] pk by simp
    then show ?thesis by auto
  qed
  then have nb: "\<not> broadcasting s" by (simp add: broadcasting_def)
  have "wpc (threads s' k) = T_broadcast" by (simp add: pcs)
  then have b: "broadcasting s'" unfolding broadcasting_def by blast
  have other: "thread_rank j s' = thread_rank j s" if "j \<noteq> k" for j
  proof (cases "before_turn (wpc (threads s j))")
    case True
    then have "\<not> int j < counter s"
      using t unfolding inv_turn_def before_turn_def by blast
    then have "k < j" using c that by simp
    then have "nat (int j - (int k + 1)) + 1 = nat (int j - int k)" by simp
    then have "wakes_left j s' = wakes_left j s"
      by (simp add: wakes_left_def b nb c) (simp add: s' goto_pc_def c)
    then show ?thesis using that by (simp add: thread_rank_def pcs)
  next
    case False
    then show ?thesis using that by (simp add: thread_rank_def pcs)
  qed
  have own: "thread_rank k s' < thread_rank k s"
    by (simp add: thread_rank_def pcs pk)
  have "(\<Sum>j<length (inputLines s). thread_rank j s') < (\<Sum>j<length (inputLines s). thread_rank j s)"
  proof (rule sum_less[OF k])
    show "thread_rank j s' \<le> thread_rank j s" for j
      using other[of j] own by (cases "j = k") simp_all
    show "thread_rank k s' < thread_rank k s" by (rule own)
  qed
  moreover have fr: "inputLines s' = inputLines s" "main_at s' = main_at s" "i_main s' = i_main s"
    by (simp_all add: s' goto_pc_def)
  then have "main_rank s' = main_rank s"
    by (simp only: main_rank_def)
  ultimately show ?thesis by (simp add: steps_left_def fr)
qed

lemma decreases_T_broadcast:
  assumes "inv s" and pk: "wpc (threads s k) = T_broadcast" and "thread_step spurious k s = Some s'"
  shows "steps_left s' < steps_left s"
proof -
  have s': "s' = goto_pc k T_unlock2_adv (wake_all s)"
    using assms(3) pk by (simp add: thread_step_def Let_def)
  have k: "k < length (inputLines s)"
    using created_less[OF assms(1), of k] pk by simp
  have pcs: "wpc (threads s' j) =
      (if j = k then T_unlock2_adv
       else if wpc (threads s j) = T_asleep then T_reacquire else wpc (threads s j))" for j
    by (simp add: s' goto_pc_def wake_all_def)
  have cs: "counter s' = counter s" by (simp add: s' goto_pc_def wake_all_def)
  have b: "broadcasting s" using pk unfolding broadcasting_def by blast
  have "wpc (threads s' j) \<noteq> T_broadcast" for j
  proof (cases "j = k")
    case True
    then show ?thesis by (simp add: pcs)
  next
    case False
    then have "\<not> holds2 (wpc (threads s j))"
      using only_holder[OF assms(1), of k j] pk by simp
    then have "wpc (threads s j) \<noteq> T_broadcast" by auto
    then show ?thesis using False by (simp add: pcs)
  qed
  then have nb: "\<not> broadcasting s'" by (simp add: broadcasting_def)
  have w: "wakes_left j s = Suc (wakes_left j s')" for j
    by (simp add: wakes_left_def b nb cs)
  have own: "thread_rank k s' < thread_rank k s"
    by (simp add: thread_rank_def pcs pk)
  have other: "thread_rank j s' \<le> thread_rank j s" if "j \<noteq> k" for j
  proof (cases "wpc (threads s j) = T_asleep")
    case True
    then show ?thesis using that by (simp add: thread_rank_def pcs w)
  next
    case False
    then show ?thesis using that by (simp add: thread_rank_def pcs w)
  qed
  have "(\<Sum>j<length (inputLines s). thread_rank j s') < (\<Sum>j<length (inputLines s). thread_rank j s)"
  proof (rule sum_less[OF k])
    show "thread_rank j s' \<le> thread_rank j s" for j
      using other[of j] own by (cases "j = k") simp_all
    show "thread_rank k s' < thread_rank k s" by (rule own)
  qed
  moreover have fr: "inputLines s' = inputLines s" "main_at s' = main_at s" "i_main s' = i_main s"
    by (simp_all add: s' goto_pc_def wake_all_def)
  then have "main_rank s' = main_rank s"
    by (simp only: main_rank_def)
  ultimately show ?thesis by (simp add: steps_left_def fr)
qed

lemma thread_step_decreases:
  assumes "inv s" "thread_step False k s = Some s'"
  shows "steps_left s' < steps_left s"
proof (cases "wpc (threads s k)")
  case T_idle
  then show ?thesis using assms(2) by (simp add: thread_step_def)
next
  case T_done
  then show ?thesis using assms(2) by (simp add: thread_step_def)
next
  case T_asleep
  then show ?thesis using assms(2) by (simp add: thread_step_def)
qed (erule decreases_T_copy[OF assms(1) _ assms(2)] decreases_T_unlock1[OF assms(1) _ assms(2)]
      decreases_T_compute[OF assms(1) _ assms(2)] decreases_T_lock2[OF assms(1) _ assms(2)]
      decreases_T_test[OF assms(1) _ assms(2)] decreases_T_reacquire[OF assms(1) _ assms(2)]
      decreases_T_unlock2[OF assms(1) _ assms(2)] decreases_T_print[OF assms(1) _ assms(2)]
      decreases_T_lock2_adv[OF assms(1) _ assms(2)] decreases_T_incr[OF assms(1) _ assms(2)]
      decreases_T_broadcast[OF assms(1) _ assms(2)] decreases_T_unlock2_adv[OF assms(1) _ assms(2)])+

lemma step_decreases:
  assumes "inv s" "step False a s = Some s'"
  shows "steps_left s' < steps_left s"
proof (cases a)
  case Main_thread
  then show ?thesis using assms main_step_decreases[of s s'] by (simp add: step_def)
next
  case (Thread k)
  then show ?thesis using assms thread_step_decreases[of s k s'] by (simp add: step_def)
qed

lemma run_decreases:
  "inv s \<Longrightarrow> run False schedule s = Some s' \<Longrightarrow> length schedule + steps_left s' \<le> steps_left s"
proof (induction schedule arbitrary: s)
  case Nil
  then show ?case by simp
next
  case (Cons a schedule)
  show ?case
  proof (cases "step False a s")
    case None
    then show ?thesis using Cons.prems(2) by simp
  next
    case (Some s1)
    have "inv s1" using Cons.prems(1) Some by (rule step_inv)
    moreover have "run False schedule s1 = Some s'" using Cons.prems(2) Some by simp
    ultimately have "length schedule + steps_left s' \<le> steps_left s1" by (rule Cons.IH)
    moreover have "steps_left s1 < steps_left s" using Cons.prems(1) Some by (rule step_decreases)
    ultimately show ?thesis by simp
  qed
qed

lemma run_append:
  "run spurious (xs @ ys) s =
     (case run spurious xs s of None \<Rightarrow> None | Some s' \<Rightarrow> run spurious ys s')"
  by (induction xs arbitrary: s) (simp_all split: option.splits)

text \<open>
  Without spurious wake-ups every schedule is bounded, and from every reachable state
  some schedule leads to the end: a run that goes on as long as a thread can step
  ends with \<^verbatim>\<open>main\<close> in its joins and every thread returned.
\<close>

lemma schedule_bounded:
  assumes "run False schedule (initial inputs) = Some s"
  shows "length schedule \<le> steps_left (initial inputs)"
  using run_decreases[OF inv_initial assms] by simp

lemma finish_from:
  "inv s \<Longrightarrow> \<exists>schedule s'. run False schedule s = Some s' \<and> finished s'"
proof (induction "steps_left s" arbitrary: s rule: less_induct)
  case less
  show ?case
  proof (cases "finished s")
    case True
    then have "run False [] s = Some s \<and> finished s" by simp
    then show ?thesis by blast
  next
    case False
    then obtain a s1 where st: "step False a s = Some s1"
      using no_deadlock[OF less.prems False, of False] by auto
    have i1: "inv s1" using less.prems st by (rule step_inv)
    have "steps_left s1 < steps_left s" using less.prems st by (rule step_decreases)
    then obtain schedule s' where r: "run False schedule s1 = Some s'" and f: "finished s'"
      using less.hyps[OF _ i1] by blast
    have "run False (a # schedule) s = Some s' \<and> finished s'"
      using st r f by simp
    then show ?thesis by blast
  qed
qed

lemma finish_reachable:
  assumes "run False schedule (initial inputs) = Some s"
  shows "\<exists>rest s'. run False (schedule @ rest) (initial inputs) = Some s' \<and> finished s'"
proof -
  have "inv s" using assms by (rule reachable_inv)
  then obtain rest s' where "run False rest s = Some s'" "finished s'"
    using finish_from by blast
  then have "run False (schedule @ rest) (initial inputs) = Some s' \<and> finished s'"
    using assms by (simp add: run_append)
  then show ?thesis by blast
qed

text \<open>
  C4. In every state that a schedule reaches from the start, with or without spurious
  wake-ups, the console holds the lines of a prefix of the input, in the order of the
  input; when \<^verbatim>\<open>main\<close> is in its joins and every thread has returned it holds all of
  them, with the indices 0, 1, ..., N - 1.
\<close>

theorem emission_in_input_order:
  assumes "run spurious schedule (initial inputs) = Some s"
  shows "prefix (console s) (in_input_order inputs) \<and>
         (finished s \<longrightarrow>
            console s = in_input_order inputs \<and>
            map fst (console s) = map int [0..<length inputs])"
proof -
  have i: "inv s" using assms by (rule reachable_inv)
  have l: "inputLines s = inputs" using run_inputLines[OF assms] by (simp add: initial_def)
  show ?thesis
    using console_prefix[OF i] console_finished[OF i] in_input_order_indices[of inputs]
    by (auto simp: l)
qed

theorem emission_in_input_order_witness:
  "(case run False example_first (initial example_lines) of
      None \<Rightarrow> False
    | Some s \<Rightarrow> wpc (threads s 0) = T_compute \<and> wpc (threads s 1) = T_asleep \<and> console s = []) \<and>
   (\<exists>s. run False (example_first @ example_rest) (initial example_lines) = Some s \<and>
        finished s \<and> console s = [(0, ''aab''), (1, ''b'')] \<and> map fst (console s) = [0, 1])"
proof -
  have first: "case run False example_first (initial example_lines) of
      None \<Rightarrow> False
    | Some s \<Rightarrow> wpc (threads s 0) = T_compute \<and> wpc (threads s 1) = T_asleep \<and> console s = []"
    by code_simp
  have "case run False (example_first @ example_rest) (initial example_lines) of
      None \<Rightarrow> False | Some s \<Rightarrow> finished s"
    by code_simp
  then obtain s where r: "run False (example_first @ example_rest) (initial example_lines) = Some s"
    and f: "finished s"
    by (auto split: option.splits)
  have o: "in_input_order example_lines = [(0, ''aab''), (1, ''b'')]"
    by code_simp
  have "console s = [(0, ''aab''), (1, ''b'')]"
    using emission_in_input_order[OF r] f by (simp add: o)
  then have "run False (example_first @ example_rest) (initial example_lines) = Some s \<and>
      finished s \<and> console s = [(0, ''aab''), (1, ''b'')] \<and> map fst (console s) = [0, 1]"
    using f r by simp
  then have "\<exists>s. run False (example_first @ example_rest) (initial example_lines) = Some s \<and>
      finished s \<and> console s = [(0, ''aab''), (1, ''b'')] \<and> map fst (console s) = [0, 1]"
    by (rule exI)
  with first show ?thesis by (rule conjI)
qed

end
